theory Spec2Isabelle
  imports Main "HOL-Library.AList" "HOL-Library.Word"
begin

section \<open>Schema documents\<close>

text \<open>
  The script \<^verbatim>\<open>scripts/extract_schema.py\<close> works on the nested structure that a model's
  \<^verbatim>\<open>model_json_schema()\<close> returns: Python dicts with string keys, lists, strings,
  numbers, booleans and \<^verbatim>\<open>None\<close>. A dict keeps its insertion order and has no
  duplicate key, so it is an association list here, with distinct keys; the theorems
  below hold of every association list. A float is kept as its 64-bit pattern, since
  the script never looks inside one. A string is the list of its characters (those
  below 256, which is what \<open>char\<close> has), so \<open>length\<close> is Python's \<^verbatim>\<open>len\<close>.

  The values are trees: two places of a schema never hold the same Python object.
  The script mutates its argument in place and returns it; on a tree that is the same
  as returning the new value.
\<close>

datatype json =
    JNull
  | JBool bool
  | JInt int
  | JFloat "64 word"
  | JStr string
  | JList "json list"
  | JDict "(string \<times> json) list"

datatype py_error =
    TypeError
      \<comment> \<open>\<^verbatim>\<open>len()\<close> of a value that has no length\<close>
  | SliceError
      \<comment> \<open>\<^verbatim>\<open>d[:3]\<close> on a dict: a TypeError (unhashable slice) before Python 3.12,
          a KeyError from 3.12 on\<close>
  | ModelError
      \<comment> \<open>whatever the external library raises from \<^verbatim>\<open>model_json_schema()\<close>\<close>
  | OSError
      \<comment> \<open>a file or directory operation that fails\<close>
  | ImportError
      \<comment> \<open>the model library is not installed, or lacks one of the 18 names\<close>
  | PrintError
      \<comment> \<open>\<^verbatim>\<open>print\<close> raises: a UnicodeEncodeError on a standard output that cannot encode
          the line, a ValueError or OSError on one that is closed or broken\<close>

section \<open>The simplification transform\<close>

text \<open>\<^verbatim>\<open>len(v)\<close>: defined on strings, lists and dicts, a TypeError (\<open>None\<close>) elsewhere.\<close>

fun py_len :: "json \<Rightarrow> nat option" where
  "py_len (JStr s) = Some (length s)"
| "py_len (JList xs) = Some (length xs)"
| "py_len (JDict kvs) = Some (length kvs)"
| "py_len _ = None"

text \<open>\<^verbatim>\<open>v[:3]\<close>: a prefix of a list or of a string; a dict cannot be sliced.\<close>

fun py_slice3 :: "json \<Rightarrow> py_error + json" where
  "py_slice3 (JList xs) = Inr (JList (take 3 xs))"
| "py_slice3 (JStr s) = Inr (JStr (take 3 s))"
| "py_slice3 (JDict kvs) = Inl SliceError"
| "py_slice3 _ = Inl TypeError"

text \<open>
  Lines 46-47:
  \<^verbatim>\<open>if 'pattern' in schema and len(schema.get('pattern', '')) > 50: del schema['pattern']\<close>
\<close>

definition pattern_rule :: "(string \<times> json) list \<Rightarrow> py_error + (string \<times> json) list" where
  "pattern_rule kvs =
     (case map_of kvs ''pattern'' of
        None \<Rightarrow> Inr kvs
      | Some v \<Rightarrow>
          (case py_len v of
             None \<Rightarrow> Inl TypeError
           | Some n \<Rightarrow> Inr (if 50 < n then AList.delete ''pattern'' kvs else kvs)))"

text \<open>
  Lines 50-52:
  \<^verbatim>\<open>if 'anyOf' in schema and len(schema['anyOf']) > 5: schema['anyOf'] = schema['anyOf'][:3]\<close>
\<close>

definition anyOf_rule :: "(string \<times> json) list \<Rightarrow> py_error + (string \<times> json) list" where
  "anyOf_rule kvs =
     (case map_of kvs ''anyOf'' of
        None \<Rightarrow> Inr kvs
      | Some v \<Rightarrow>
          (case py_len v of
             None \<Rightarrow> Inl TypeError
           | Some n \<Rightarrow>
               if 5 < n
               then (case py_slice3 v of
                       Inl e \<Rightarrow> Inl e
                     | Inr v' \<Rightarrow> Inr (AList.update ''anyOf'' v' kvs))
               else Inr kvs))"

text \<open>
  The transform recurses on what the two rules leave of a mapping, which is not a
  subterm of the mapping; it is never larger, and that is why the recursion ends.
\<close>

lemma size_delete_le:
  "size_list f (AList.delete k kvs) \<le> size_list f kvs"
  by (induction kvs) auto

lemma size_update_le:
  "map_of kvs k = Some v \<Longrightarrow> size v' \<le> size v \<Longrightarrow>
   size_list (size_prod g size) (AList.update k v' kvs) \<le> size_list (size_prod g size) kvs"
  by (induction kvs) (auto split: if_splits)

lemma size_take_le:
  "size_list f (take n xs) \<le> size_list f xs"
proof (induction xs arbitrary: n)
  case Nil
  then show ?case by simp
next
  case (Cons x xs)
  then show ?case by (cases n) auto
qed

lemma py_slice3_size:
  "py_slice3 v = Inr v' \<Longrightarrow> size v' \<le> size v"
  by (cases v) (auto simp: size_take_le)

lemma pattern_rule_size:
  "pattern_rule kvs = Inr kvs1 \<Longrightarrow> size_list f kvs1 \<le> size_list f kvs"
  by (auto simp: pattern_rule_def size_delete_le split: option.splits if_splits)

lemma anyOf_rule_size:
  "anyOf_rule kvs = Inr kvs2 \<Longrightarrow>
   size_list (size_prod g size) kvs2 \<le> size_list (size_prod g size) kvs"
  by (auto simp: anyOf_rule_def split: option.splits if_splits sum.splits
      intro!: size_update_le dest: py_slice3_size)

text \<open>
  Lines 39-61. \<open>simplify_schema_for_llm\<close> is the function itself; \<open>simplify_entries\<close> is
  the loop over \<^verbatim>\<open>schema.items()\<close> (lines 55-59), \<open>simplify_value\<close> what one iteration
  stores under its key, \<open>simplify_items\<close> the list comprehension of line 59 and
  \<open>simplify_item\<close> its element expression. An exception leaves every loop at once.
\<close>

function (sequential) simplify_schema_for_llm :: "json \<Rightarrow> py_error + json"
  and simplify_entries :: "(string \<times> json) list \<Rightarrow> py_error + (string \<times> json) list"
  and simplify_value :: "json \<Rightarrow> py_error + json"
  and simplify_items :: "json list \<Rightarrow> py_error + json list"
  and simplify_item :: "json \<Rightarrow> py_error + json"
where
  "simplify_schema_for_llm (JDict kvs) =
     (case pattern_rule kvs of
        Inl e \<Rightarrow> Inl e
      | Inr kvs1 \<Rightarrow>
          (case anyOf_rule kvs1 of
             Inl e \<Rightarrow> Inl e
           | Inr kvs2 \<Rightarrow>
               (case simplify_entries kvs2 of
                  Inl e \<Rightarrow> Inl e
                | Inr kvs3 \<Rightarrow> Inr (JDict kvs3))))"
| "simplify_schema_for_llm schema = Inr schema"
| "simplify_entries [] = Inr []"
| "simplify_entries ((key, v) # rest) =
     (case simplify_value v of
        Inl e \<Rightarrow> Inl e
      | Inr v' \<Rightarrow>
          (case simplify_entries rest of
             Inl e \<Rightarrow> Inl e
           | Inr rest' \<Rightarrow> Inr ((key, v') # rest')))"
| "simplify_value (JDict kvs) = simplify_schema_for_llm (JDict kvs)"
| "simplify_value (JList items) =
     (case simplify_items items of
        Inl e \<Rightarrow> Inl e
      | Inr items' \<Rightarrow> Inr (JList items'))"
| "simplify_value v = Inr v"
| "simplify_items [] = Inr []"
| "simplify_items (item # rest) =
     (case simplify_item item of
        Inl e \<Rightarrow> Inl e
      | Inr item' \<Rightarrow>
          (case simplify_items rest of
             Inl e \<Rightarrow> Inl e
           | Inr rest' \<Rightarrow> Inr (item' # rest')))"
| "simplify_item (JDict kvs) = simplify_schema_for_llm (JDict kvs)"
| "simplify_item item = Inr item"
  by pat_completeness auto

termination simplify_schema_for_llm
proof (relation "measures
    [\<lambda>x. case x of
            Inl (Inl s) \<Rightarrow> size s
          | Inl (Inr kvs) \<Rightarrow> size_list (size_prod (\<lambda>_. 0) size) kvs
          | Inr (Inl v) \<Rightarrow> size v
          | Inr (Inr (Inl xs)) \<Rightarrow> size_list size xs
          | Inr (Inr (Inr i)) \<Rightarrow> size i,
     \<lambda>x. case x of Inl (Inl s) \<Rightarrow> 0 | _ \<Rightarrow> Suc 0]", goal_cases)
  case (2 kvs kvs1 kvs2)
  have "size_list (size_prod (\<lambda>_. 0) size) kvs2 \<le> size_list (size_prod (\<lambda>_. 0) size) kvs1"
    using 2 by (intro anyOf_rule_size)
  also have "\<dots> \<le> size_list (size_prod (\<lambda>_. 0) size) kvs"
    using 2 by (intro pattern_rule_size)
  finally show ?case by simp
qed simp_all

text \<open>
  Applying the transform twice: the second call runs on the result of the first, and an
  exception raised by the first call is the outcome of the whole.
\<close>

definition simplify_twice :: "json \<Rightarrow> py_error + json" where
  "simplify_twice schema =
     (case simplify_schema_for_llm schema of
        Inl e \<Rightarrow> Inl e
      | Inr once \<Rightarrow> simplify_schema_for_llm once)"

section \<open>Nodes of a schema document\<close>

text \<open>
  A node of a document is named by the path that leads to it from the root: the keys
  and list positions passed on the way. \<open>node_at\<close> follows any path. \<open>walked\<close> says
  that a path takes only the steps that the recursion of lines 55-59 takes: from a
  mapping to a mapping-valued entry, or to a mapping element of a list-valued entry.
  An element of a list that is not a mapping is stored back as it is (line 59), so
  nothing below it is visited.
\<close>

datatype step = Key string | Idx nat

fun node_at :: "json \<Rightarrow> step list \<Rightarrow> json option" where
  "node_at v [] = Some v"
| "node_at (JDict kvs) (Key k # p) =
     (case map_of kvs k of None \<Rightarrow> None | Some v \<Rightarrow> node_at v p)"
| "node_at (JList xs) (Idx i # p) =
     (if i < length xs then node_at (xs ! i) p else None)"
| "node_at _ _ = None"

fun is_dict :: "json \<Rightarrow> bool" where
  "is_dict (JDict kvs) = True"
| "is_dict _ = False"

fun walked :: "json \<Rightarrow> step list \<Rightarrow> bool" where
  "walked v [] = True"
| "walked (JDict kvs) (Key k # p) =
     (case map_of kvs k of
        Some (JDict kvs') \<Rightarrow> walked (JDict kvs') p
      | Some (JList xs) \<Rightarrow>
          (case p of
             Idx i # p' \<Rightarrow> i < length xs \<and> is_dict (xs ! i) \<and> walked (xs ! i) p'
           | _ \<Rightarrow> False)
      | _ \<Rightarrow> False)"
| "walked _ _ = False"

text \<open>
  The typing that a JSON Schema gives the two keys the rules read: a \<^verbatim>\<open>'pattern'\<close> is a
  string and an \<^verbatim>\<open>'anyOf'\<close> is a list, at every mapping of the document, visited or not.
\<close>

fun is_str :: "json \<Rightarrow> bool" where
  "is_str (JStr s) = True"
| "is_str _ = False"

fun is_list :: "json \<Rightarrow> bool" where
  "is_list (JList xs) = True"
| "is_list _ = False"

fun pattern_values_are_strings :: "json \<Rightarrow> bool" where
  "pattern_values_are_strings (JDict kvs) =
     ((case map_of kvs ''pattern'' of None \<Rightarrow> True | Some v \<Rightarrow> is_str v) \<and>
      list_all (\<lambda>kv. pattern_values_are_strings (snd kv)) kvs)"
| "pattern_values_are_strings (JList xs) = list_all pattern_values_are_strings xs"
| "pattern_values_are_strings _ = True"

fun anyOf_values_are_lists :: "json \<Rightarrow> bool" where
  "anyOf_values_are_lists (JDict kvs) =
     ((case map_of kvs ''anyOf'' of None \<Rightarrow> True | Some v \<Rightarrow> is_list v) \<and>
      list_all (\<lambda>kv. anyOf_values_are_lists (snd kv)) kvs)"
| "anyOf_values_are_lists (JList xs) = list_all anyOf_values_are_lists xs"
| "anyOf_values_are_lists _ = True"

definition typed :: "json \<Rightarrow> bool" where
  "typed v \<longleftrightarrow> pattern_values_are_strings v \<and> anyOf_values_are_lists v"

text \<open>
  The nodes that a run reaches before anything can stop it. \<open>deleted k v\<close>: rule 1
  removes the entry \<open>k\<close> of a mapping (line 47). \<open>kept k xs\<close>: the number of elements
  of the list \<open>xs\<close> under \<open>k\<close> that are left after rule 2 (line 52). \<open>reached v p\<close>:
  the path \<open>p\<close> follows the recursion of lines 55-59 from \<open>v\<close> through entries that
  rule 1 leaves in place and list elements that rule 2 leaves in place.
\<close>

definition deleted :: "string \<Rightarrow> json \<Rightarrow> bool" where
  "deleted k v \<longleftrightarrow> k = ''pattern'' \<and> (case py_len v of None \<Rightarrow> False | Some n \<Rightarrow> 50 < n)"

definition kept :: "string \<Rightarrow> json list \<Rightarrow> nat" where
  "kept k xs = (if k = ''anyOf'' \<and> 5 < length xs then 3 else length xs)"

fun reached :: "json \<Rightarrow> step list \<Rightarrow> bool" where
  "reached v [] = True"
| "reached (JDict kvs) (Key k # p) =
     (case map_of kvs k of
        None \<Rightarrow> False
      | Some v \<Rightarrow>
          \<not> deleted k v \<and>
          (case v of
             JDict kvs' \<Rightarrow> reached (JDict kvs') p
           | JList xs \<Rightarrow>
               (case p of
                  Idx i # p' \<Rightarrow> i < kept k xs \<and> is_dict (xs ! i) \<and> reached (xs ! i) p'
                | _ \<Rightarrow> False)
           | _ \<Rightarrow> False))"
| "reached _ _ = False"

section \<open>The export run\<close>

text \<open>
  \<open>extract_schemas\<close> (lines 64-138) and the script around it (lines 11-36 and 141-144)
  act on the outside world: they import a library, create a directory, write files and
  print. The world is explicit here. What a run cannot decide by itself is a parameter
  of it, the record \<open>env\<close>: whether the import succeeds, whether the directory can be
  created, what each model's \<^verbatim>\<open>model_json_schema()\<close> returns or raises, how writing each
  file ends, the clock, which lines standard output accepts, and whether the
  interpreter can flush standard output when it exits.

  A file of the output directory holds \<open>Written v\<close> after \<^verbatim>\<open>json.dump(v, f, indent=2)\<close>
  has completed: its text is the serialisation of \<open>v\<close>, and parsing it gives \<open>v\<close>. It
  holds \<open>Partial\<close> when \<^verbatim>\<open>open(file, 'w')\<close> has emptied it and \<^verbatim>\<open>json.dump\<close> raised before
  the end. When \<^verbatim>\<open>open\<close> itself raises, the file is as it was.
\<close>

datatype file_content =
    Written json
  | Partial

datatype write_outcome = WriteOk | OpenFails | DumpFails

text \<open>
  The lines the run prints: line 32 (\<open>ImportedOk\<close>), line 34, line 35, line 142
  (\<open>Starting\<close>), line 109, line 112, line 120, line 121 and line 144 (\<open>Complete\<close>).
\<close>

datatype message =
    ImportedOk
  | ImportFailed py_error
  | InstallHint
  | Starting
  | ExtractedOk string
  | ExtractFailed string py_error
  | ExtractedCount nat
  | CombinedSaved
  | Complete

text \<open>
  \<open>module_import\<close> is \<open>None\<close> when lines 12-31 import all 18 names, and the exception
  otherwise. \<open>model_json_schema\<close> is given by the registry name of the model, and every
  call returns a fresh tree. \<open>file_write\<close> is given by the file's name in the output
  directory: the run writes each file once. \<open>print_ok m\<close> tells whether \<^verbatim>\<open>print\<close> of the
  line \<open>m\<close> returns: it raises when standard output cannot encode the line (the lines
  109, 112, 120 and 121 hold the characters U+2713 and U+2717) or is closed. A run
  prints no line twice. \<open>stdout_flush_ok\<close> tells whether the flush of standard output
  at the exit of the interpreter succeeds.
\<close>

record env =
  module_import :: "py_error option"
  mkdir_ok :: bool
  model_json_schema :: "string \<Rightarrow> py_error + json"
  file_write :: "string \<Rightarrow> write_outcome"
  now_isoformat :: string
  print_ok :: "message \<Rightarrow> bool"
  stdout_flush_ok :: bool

type_synonym files = "string \<rightharpoonup> file_content"

record world =
  files :: files
  console :: "message list"

text \<open>
  \<^verbatim>\<open>print(m)\<close>: the line is on the console, or the call raises and nothing is added.
\<close>

definition print :: "env \<Rightarrow> world \<Rightarrow> message \<Rightarrow> py_error option \<times> world" where
  "print env w m =
     (if print_ok env m then (None, w\<lparr>console := console w @ [m]\<rparr>)
      else (Some PrintError, w))"

text \<open>
  Lines 105-106, 117-118 and 135-136: \<^verbatim>\<open>with open(file, 'w') as f: json.dump(v, f, indent=2)\<close>.
  The result is the directory afterwards and the exception raised, if any.
\<close>

definition write_json :: "env \<Rightarrow> string \<Rightarrow> json \<Rightarrow> files \<Rightarrow> files \<times> py_error option" where
  "write_json env file v fs =
     (case file_write env file of
        WriteOk \<Rightarrow> (fs(file \<mapsto> Written v), None)
      | OpenFails \<Rightarrow> (fs, Some OSError)
      | DumpFails \<Rightarrow> (fs(file \<mapsto> Partial), Some OSError))"

text \<open>
  Lines 68-87: the keys of the registry, in the order of the dict literal.
\<close>

definition models :: "string list" where
  "models =
     [''Dandiset'', ''Person'', ''Organization'', ''Contributor'', ''ContactPoint'',
      ''Affiliation'', ''AssetsSummary'', ''AccessRequirements'', ''PropertyValue'',
      ''Resource'', ''Activity'', ''Project'', ''Session'', ''Equipment'', ''Software'',
      ''Agent'', ''Asset'', ''BareAsset'']"

text \<open>
  \<^verbatim>\<open>str.lower()\<close> on the characters below 256: the letters A to Z and the capital
  letters of Latin-1 (192 to 222 except the multiplication sign 215) move up by 32,
  which sets the bit of weight 32, the sixth argument of \<open>Char\<close>; the others stay.
\<close>

fun lower_char :: "char \<Rightarrow> char" where
  "lower_char (Char b0 b1 b2 b3 b4 b5 b6 b7) =
     (let n = (of_char (Char b0 b1 b2 b3 b4 b5 b6 b7) :: nat)
      in if (65 \<le> n \<and> n \<le> 90) \<or> (192 \<le> n \<and> n \<le> 222 \<and> n \<noteq> 215)
         then Char b0 b1 b2 b3 b4 True b6 b7
         else Char b0 b1 b2 b3 b4 b5 b6 b7)"

definition lower :: "string \<Rightarrow> string" where
  "lower s = map lower_char s"

text \<open>
  Line 104: \<^verbatim>\<open>f'{name.lower()}.schema.json'\<close>.
\<close>

definition schema_file :: "string \<Rightarrow> string" where
  "schema_file name = lower name @ ''.schema.json''"

text \<open>
  Lines 98 and 101: the export of one model, then its simplification.
\<close>

definition export_simplified :: "env \<Rightarrow> string \<Rightarrow> py_error + json" where
  "export_simplified env name =
     (case model_json_schema env name of
        Inl e \<Rightarrow> Inl e
      | Inr schema \<Rightarrow> simplify_schema_for_llm schema)"

text \<open>
  Lines 97-109, the body of the \<^verbatim>\<open>try\<close>, up to the line that raises: the export and
  the simplification, the write of the model's file, the assignment of line 108, the
  print of line 109. The first component is the exception that leaves the block.
  When the print of line 109 raises, the file is written and the schema is recorded.
\<close>

type_synonym loop_state = "(string \<times> json) list \<times> world"

fun try_block :: "env \<Rightarrow> string \<Rightarrow> loop_state \<Rightarrow> py_error option \<times> loop_state" where
  "try_block env name (extracted_schemas, w) =
     (case export_simplified env name of
        Inl e \<Rightarrow> (Some e, (extracted_schemas, w))
      | Inr simplified_schema \<Rightarrow>
          (case write_json env (schema_file name) simplified_schema (files w) of
             (fs, Some e) \<Rightarrow> (Some e, (extracted_schemas, w\<lparr>files := fs\<rparr>))
           | (fs, None) \<Rightarrow>
               (case print env (w\<lparr>files := fs\<rparr>) (ExtractedOk name) of
                  (raised, w') \<Rightarrow>
                    (raised, (AList.update name simplified_schema extracted_schemas, w')))))"

text \<open>
  Lines 96-113, one iteration of the loop. The handler of line 111 catches every
  \<^verbatim>\<open>Exception\<close> of the block, also the one of the print of line 109, and prints line
  112. Nothing catches what that print raises: the first component is the exception
  that leaves the iteration, and with it the loop.
\<close>

fun extract_one :: "env \<Rightarrow> string \<Rightarrow> loop_state \<Rightarrow> py_error option \<times> loop_state" where
  "extract_one env name st =
     (case try_block env name st of
        (None, st') \<Rightarrow> (None, st')
      | (Some e, (extracted_schemas, w)) \<Rightarrow>
          (case print env w (ExtractFailed name e) of
             (raised, w') \<Rightarrow> (raised, (extracted_schemas, w'))))"

text \<open>
  Line 95: the loop over the registry, until an iteration raises.
\<close>

fun extract_loop :: "env \<Rightarrow> string list \<Rightarrow> loop_state \<Rightarrow> py_error option \<times> loop_state" where
  "extract_loop env [] st = (None, st)"
| "extract_loop env (name # names) st =
     (case extract_one env name st of
        (None, st') \<Rightarrow> extract_loop env names st'
      | (Some e, st') \<Rightarrow> (Some e, st'))"

text \<open>
  Lines 124-132: the summary record.
\<close>

definition summary :: "env \<Rightarrow> (string \<times> json) list \<Rightarrow> json" where
  "summary env extracted_schemas =
     JDict [(''extracted_at'', JStr (now_isoformat env)),
            (''total_schemas'', JInt (int (length extracted_schemas))),
            (''schema_names'', JList (map (\<lambda>(name, schema). JStr name) extracted_schemas)),
            (''file_locations'',
               JDict (map (\<lambda>(name, schema). (name, JStr (schema_file name)))
                        extracted_schemas))]"

text \<open>
  Lines 89-138. Nothing catches an exception of \<^verbatim>\<open>mkdir\<close> (line 91), of the handler
  in the loop (line 112), of the two writes after the loop (lines 117-118 and 135-136)
  or of the two prints between them (lines 120-121): the function ends with it.
\<close>

definition extract_schemas :: "env \<Rightarrow> world \<Rightarrow> (py_error + (string \<times> json) list) \<times> world" where
  "extract_schemas env w =
     (if \<not> mkdir_ok env then (Inl OSError, w)
      else
        (case extract_loop env models ([], w) of
           (Some e, (extracted_schemas, w1)) \<Rightarrow> (Inl e, w1)
         | (None, (extracted_schemas, w1)) \<Rightarrow>
             (case write_json env ''all_schemas.json'' (JDict extracted_schemas) (files w1) of
                (fs, Some e) \<Rightarrow> (Inl e, w1\<lparr>files := fs\<rparr>)
              | (fs, None) \<Rightarrow>
                  (case print env (w1\<lparr>files := fs\<rparr>) (ExtractedCount (length extracted_schemas)) of
                     (Some e, w2) \<Rightarrow> (Inl e, w2)
                   | (None, w2) \<Rightarrow>
                       (case print env w2 CombinedSaved of
                          (Some e, w3) \<Rightarrow> (Inl e, w3)
                        | (None, w3) \<Rightarrow>
                            (case write_json env ''schema_summary.json''
                                    (summary env extracted_schemas) (files w3) of
                               (fs', Some e) \<Rightarrow> (Inl e, w3\<lparr>files := fs'\<rparr>)
                             | (fs', None) \<Rightarrow>
                                 (Inr extracted_schemas, w3\<lparr>files := fs'\<rparr>)))))))"



text \<open>
  What the \<^verbatim>\<open>try\<close> block does for one model apart from printing, whatever the
  directory holds: the schema it records under the model's name, or the exception of
  the export, the simplification or the write.
\<close>

definition model_result :: "env \<Rightarrow> string \<Rightarrow> py_error + json" where
  "model_result env name =
     (case export_simplified env name of
        Inl e \<Rightarrow> Inl e
      | Inr simplified_schema \<Rightarrow>
          (case file_write env (schema_file name) of
             WriteOk \<Rightarrow> Inr simplified_schema
           | OpenFails \<Rightarrow> Inl OSError
           | DumpFails \<Rightarrow> Inl OSError))"

text \<open>
  \<open>iteration_ok env name\<close>: the iteration of \<open>name\<close> raises nothing. Either the export,
  the simplification or the write raises and line 112 can be printed; or they succeed
  and line 109 can be printed, or it cannot and line 112 can be printed with the
  exception of line 109. \<open>loop_ok\<close>: no iteration raises. \<open>succeeded\<close>: the models that
  the loop records when it runs to its end.
\<close>

definition iteration_ok :: "env \<Rightarrow> string \<Rightarrow> bool" where
  "iteration_ok env name =
     (case model_result env name of
        Inl e \<Rightarrow> print_ok env (ExtractFailed name e)
      | Inr t \<Rightarrow> print_ok env (ExtractedOk name) \<or> print_ok env (ExtractFailed name PrintError))"

definition loop_ok :: "env \<Rightarrow> bool" where
  "loop_ok env = list_all (iteration_ok env) models"

definition succeeded :: "env \<Rightarrow> string list" where
  "succeeded env = filter (\<lambda>name. \<not> isl (model_result env name)) models"

section \<open>Example documents and environments\<close>

definition sixty :: string where
  "sixty = replicate 60 (CHR ''a'')"

definition nested_pattern_doc :: json where
  "nested_pattern_doc = JDict [(''examples'', JList [JList [JDict [(''pattern'', JStr sixty)]]])]"

definition property_doc :: json where
  "property_doc =
     JDict [(''properties'',
             JDict [(''id'', JDict [(''type'', JStr ''string''), (''pattern'', JStr sixty)])])]"

definition nested_union_doc :: json where
  "nested_union_doc =
     JDict [(''examples'',
             JList [JList [JDict [(''anyOf'',
               JList [JInt 1, JInt 2, JInt 3, JInt 4, JInt 5, JInt 6, JInt 7])]]])]"

definition union_doc :: json where
  "union_doc =
     JDict [(''items'',
             JDict [(''anyOf'',
               JList [JDict [(''pattern'', JStr sixty)], JInt 2, JInt 3, JInt 4, JInt 5, JInt 6])])]"

definition nested_oneOf_doc :: json where
  "nested_oneOf_doc =
     JDict [(''examples'',
             JList [JList [JDict [(''oneOf'', JList [JDict [(''pattern'', JStr sixty)]])]]])]"

definition oneOf_doc :: json where
  "oneOf_doc =
     JDict [(''oneOf'',
             JList [JDict [(''pattern'', JStr sixty)], JInt 2, JInt 3, JInt 4, JInt 5, JInt 6,
                    JInt 7])]"

text \<open>
  A list of 100 elements, to stand under a \<^verbatim>\<open>'pattern'\<close> key.
\<close>

definition hundred_items :: json where
  "hundred_items = JList (replicate 100 JNull)"

text \<open>
  A mapping with a \<^verbatim>\<open>'pattern'\<close> that has no length, in a list that is itself a list
  element; the same mapping where the recursion reaches it; a document whose
  \<^verbatim>\<open>'anyOf'\<close> holds a mapping of six entries, beside such a mapping.
\<close>

definition nested_number_doc :: json where
  "nested_number_doc = JDict [(''examples'', JList [JList [JDict [(''pattern'', JInt 5)]]])]"

definition number_pattern_doc :: json where
  "number_pattern_doc =
     JDict [(''properties'', JDict [(''id'', JDict [(''pattern'', JInt 5)])])]"

definition sliced_mapping_doc :: json where
  "sliced_mapping_doc =
     JDict [(''anyOf'',
             JDict [(''a'', JNull), (''b'', JNull), (''c'', JNull),
                    (''d'', JNull), (''e'', JNull), (''f'', JNull)]),
            (''items'', JDict [(''pattern'', JInt 5)])]"

text \<open>
  An environment in which the export of \<^verbatim>\<open>Person\<close> raises and everything else
  succeeds, and an empty output directory.
\<close>

definition env17 :: env where
  "env17 =
     \<lparr>module_import = None, mkdir_ok = True,
      model_json_schema =
        (\<lambda>name. if name = ''Person'' then Inl ModelError
                else Inr (JDict [(''title'', JStr name), (''pattern'', JStr sixty)])),
      file_write = (\<lambda>file. WriteOk),
      now_isoformat = ''2024-05-01T12:00:00'',
      print_ok = (\<lambda>m. True),
      stdout_flush_ok = True\<rparr>"

definition world0 :: world where
  "world0 = \<lparr>files = Map.empty, console = []\<rparr>"

text \<open>
  The lines that hold U+2713 or U+2717, and an environment whose standard output
  cannot encode them (an ASCII or Latin-1 terminal); the same with the export of the
  first model raising and the export of \<^verbatim>\<open>Person\<close> succeeding.
\<close>

fun has_mark :: "message \<Rightarrow> bool" where
  "has_mark (ExtractedOk name) = True"
| "has_mark (ExtractFailed name e) = True"
| "has_mark (ExtractedCount n) = True"
| "has_mark CombinedSaved = True"
| "has_mark m = False"

definition env_ascii :: env where
  "env_ascii = env17\<lparr>print_ok := (\<lambda>m. \<not> has_mark m)\<rparr>"




definition env_combined_unwritable :: env where
  "env_combined_unwritable =
     env17\<lparr>file_write := (\<lambda>file. if file = ''all_schemas.json'' then OpenFails else WriteOk)\<rparr>"


definition world_old :: world where
  "world_old =
     \<lparr>files = [''all_schemas.json'' \<mapsto>
                 Written (JDict [(''Person'', JDict []), (''Asset'', JDict [])])],
      console = []\<rparr>"

section \<open>Lemmas on the transform\<close>

subsection \<open>The shape of a successful run\<close>

lemma simplify_entries_iff:
  "simplify_entries kvs = Inr kvs' \<longleftrightarrow>
   list_all2 (\<lambda>(k, v) (k', v'). k' = k \<and> simplify_value v = Inr v') kvs kvs'"
proof (induction kvs arbitrary: kvs')
  case Nil
  then show ?case by auto
next
  case (Cons kv kvs)
  obtain k v where kv: "kv = (k, v)" by (cases kv)
  show ?case
    unfolding kv
    by (cases kvs') (auto simp: Cons.IH [symmetric] split: sum.splits)
qed

lemma simplify_items_iff:
  "simplify_items xs = Inr ys \<longleftrightarrow> list_all2 (\<lambda>x y. simplify_item x = Inr y) xs ys"
proof (induction xs arbitrary: ys)
  case Nil
  then show ?case by auto
next
  case (Cons x xs)
  show ?case
    by (cases ys) (auto simp: Cons.IH [symmetric] split: sum.splits)
qed

lemma simplify_entries_length:
  "simplify_entries kvs = Inr kvs' \<Longrightarrow> length kvs' = length kvs"
  by (simp add: simplify_entries_iff list_all2_lengthD)

lemma simplify_entries_keys:
  "simplify_entries kvs = Inr kvs' \<Longrightarrow> map fst kvs' = map fst kvs"
  unfolding simplify_entries_iff
  by (induction kvs kvs' rule: list_all2_induct) auto

lemma simplify_entries_map_of:
  "simplify_entries kvs = Inr kvs' \<Longrightarrow>
   map_of kvs' k = (case map_of kvs k of None \<Rightarrow> None
                    | Some v \<Rightarrow> (case simplify_value v of Inl e \<Rightarrow> None | Inr v' \<Rightarrow> Some v'))"
  unfolding simplify_entries_iff
  by (induction kvs kvs' rule: list_all2_induct) auto

lemma simplify_items_length:
  "simplify_items xs = Inr ys \<Longrightarrow> length ys = length xs"
  by (simp add: simplify_items_iff list_all2_lengthD)

lemma simplify_items_nth:
  "simplify_items xs = Inr ys \<Longrightarrow> i < length xs \<Longrightarrow> simplify_item (xs ! i) = Inr (ys ! i)"
  unfolding simplify_items_iff by (rule list_all2_nthD)

lemma simplify_dict_shape:
  "simplify_schema_for_llm (JDict kvs) = Inr out \<Longrightarrow>
   \<exists>kvs1 kvs2 kvs3. pattern_rule kvs = Inr kvs1 \<and> anyOf_rule kvs1 = Inr kvs2 \<and>
      simplify_entries kvs2 = Inr kvs3 \<and> out = JDict kvs3"
  by (auto split: sum.splits)

lemma pattern_rule_length:
  "pattern_rule kvs = Inr kvs1 \<Longrightarrow> length kvs1 \<le> length kvs"
  by (auto simp: pattern_rule_def AList.length_delete_le split: option.splits if_splits)

lemma update_same_length:
  "map_of kvs k = Some v \<Longrightarrow> length (AList.update k v' kvs) = length kvs"
  by (induction kvs) auto

lemma anyOf_rule_length:
  "anyOf_rule kvs1 = Inr kvs2 \<Longrightarrow> length kvs2 = length kvs1"
  by (auto simp: anyOf_rule_def update_same_length split: option.splits if_splits sum.splits)

lemma simplify_value_len:
  assumes "simplify_value v = Inr v'" and "py_len v = Some n"
  shows "\<exists>n'. py_len v' = Some n' \<and> n' \<le> n"
proof (cases v)
  case (JList xs)
  with assms show ?thesis
    by (auto split: sum.splits dest: simplify_items_length)
next
  case (JDict kvs)
  with assms have "simplify_schema_for_llm (JDict kvs) = Inr v'" by simp
  then obtain kvs1 kvs2 kvs3 where
    "pattern_rule kvs = Inr kvs1" "anyOf_rule kvs1 = Inr kvs2"
    "simplify_entries kvs2 = Inr kvs3" "v' = JDict kvs3"
    using simplify_dict_shape by blast
  with assms JDict show ?thesis
    using pattern_rule_length anyOf_rule_length simplify_entries_length by fastforce
qed (use assms in auto)

subsection \<open>A result of the transform is a fixed point\<close>

definition pattern_ok :: "(string \<times> json) list \<Rightarrow> bool" where
  "pattern_ok kvs \<longleftrightarrow>
     (case map_of kvs ''pattern'' of None \<Rightarrow> True
      | Some v \<Rightarrow> (case py_len v of None \<Rightarrow> False | Some n \<Rightarrow> n \<le> 50))"

definition anyOf_ok :: "(string \<times> json) list \<Rightarrow> bool" where
  "anyOf_ok kvs \<longleftrightarrow>
     (case map_of kvs ''anyOf'' of None \<Rightarrow> True
      | Some v \<Rightarrow> (case py_len v of None \<Rightarrow> False | Some n \<Rightarrow> n \<le> 5))"

lemma pattern_ok_fix: "pattern_ok kvs \<Longrightarrow> pattern_rule kvs = Inr kvs"
  by (auto simp: pattern_ok_def pattern_rule_def split: option.splits)

lemma anyOf_ok_fix: "anyOf_ok kvs \<Longrightarrow> anyOf_rule kvs = Inr kvs"
  by (auto simp: anyOf_ok_def anyOf_rule_def split: option.splits)

lemma pattern_rule_ok: "pattern_rule kvs = Inr kvs1 \<Longrightarrow> pattern_ok kvs1"
  by (auto simp: pattern_ok_def pattern_rule_def AList.delete_conv' split: option.splits if_splits)

lemma anyOf_rule_keeps_pattern:
  "anyOf_rule kvs1 = Inr kvs2 \<Longrightarrow> map_of kvs2 ''pattern'' = map_of kvs1 ''pattern''"
  by (auto simp: anyOf_rule_def AList.update_conv' split: option.splits if_splits sum.splits)

lemma py_slice3_len:
  "py_slice3 v = Inr v' \<Longrightarrow> \<exists>n. py_len v' = Some n \<and> n \<le> 3"
  by (cases v) auto

lemma anyOf_rule_ok: "anyOf_rule kvs1 = Inr kvs2 \<Longrightarrow> anyOf_ok kvs2"
  by (auto simp: anyOf_ok_def anyOf_rule_def AList.update_conv'
      split: option.splits if_splits sum.splits dest!: py_slice3_len)

lemma simplify_entries_bounded:
  assumes "simplify_entries kvs2 = Inr kvs3"
    and "case map_of kvs2 k of None \<Rightarrow> True
         | Some v \<Rightarrow> (case py_len v of None \<Rightarrow> False | Some n \<Rightarrow> n \<le> b)"
  shows "case map_of kvs3 k of None \<Rightarrow> True
         | Some v \<Rightarrow> (case py_len v of None \<Rightarrow> False | Some n \<Rightarrow> n \<le> b)"
proof (cases "map_of kvs3 k")
  case None
  then show ?thesis by simp
next
  case (Some v3)
  with assms(1) obtain v2 where v2: "map_of kvs2 k = Some v2" "simplify_value v2 = Inr v3"
    by (auto simp: simplify_entries_map_of split: option.splits sum.splits)
  with assms(2) obtain n where "py_len v2 = Some n" "n \<le> b"
    by (auto split: option.splits)
  with v2 simplify_value_len obtain n' where "py_len v3 = Some n'" "n' \<le> n"
    by blast
  with Some \<open>n \<le> b\<close> show ?thesis by simp
qed

lemma simplify_fixpoint:
  "simplify_schema_for_llm s = Inr t \<Longrightarrow> simplify_schema_for_llm t = Inr t"
  "simplify_entries kvs = Inr kvs' \<Longrightarrow> simplify_entries kvs' = Inr kvs'"
  "simplify_value v = Inr v' \<Longrightarrow> simplify_value v' = Inr v'"
  "simplify_items xs = Inr ys \<Longrightarrow> simplify_items ys = Inr ys"
  "simplify_item i = Inr i' \<Longrightarrow> simplify_item i' = Inr i'"
proof (induction s and kvs and v and xs and i arbitrary: t and kvs' and v' and ys and i'
    rule: simplify_schema_for_llm_simplify_entries_simplify_value_simplify_items_simplify_item.induct)
  case (1 kvs)
  from "1.prems" obtain kvs1 kvs2 kvs3 where
    r: "pattern_rule kvs = Inr kvs1" "anyOf_rule kvs1 = Inr kvs2"
      "simplify_entries kvs2 = Inr kvs3" "t = JDict kvs3"
    using simplify_dict_shape by blast
  have stable: "simplify_entries kvs3 = Inr kvs3"
    using "1.IH" r by blast
  have "pattern_ok kvs2"
    using pattern_rule_ok [OF r(1)] anyOf_rule_keeps_pattern [OF r(2)]
    by (simp add: pattern_ok_def)
  then have p: "pattern_ok kvs3"
    unfolding pattern_ok_def by (rule simplify_entries_bounded [OF r(3)])
  have "anyOf_ok kvs3"
    using anyOf_rule_ok [OF r(2)]
    unfolding anyOf_ok_def by (rule simplify_entries_bounded [OF r(3)])
  with p stable r(4) show ?case
    by (simp add: pattern_ok_fix anyOf_ok_fix)
qed (auto split: sum.splits)

subsection \<open>What the transform does at a node\<close>

lemma rules_lookup:
  assumes "pattern_rule kvs = Inr kvs1" and "anyOf_rule kvs1 = Inr kvs2"
    and "map_of kvs2 k = Some v2"
  shows "\<exists>v. map_of kvs k = Some v \<and>
           (v2 = v \<or> (k = ''anyOf'' \<and> py_slice3 v = Inr v2 \<and> (\<exists>n. py_len v = Some n \<and> 5 < n)))"
proof -
  from assms(2,3) have "\<exists>v. map_of kvs1 k = Some v \<and>
           (v2 = v \<or> (k = ''anyOf'' \<and> py_slice3 v = Inr v2 \<and> (\<exists>n. py_len v = Some n \<and> 5 < n)))"
    by (auto simp: anyOf_rule_def AList.update_conv' split: option.splits if_splits sum.splits)
  moreover from assms(1) have "map_of kvs1 k = Some v \<Longrightarrow> map_of kvs k = Some v" for v
    by (auto simp: pattern_rule_def AList.delete_conv' split: option.splits if_splits)
  ultimately show ?thesis by blast
qed

lemma simplify_dict_lookup:
  assumes "simplify_schema_for_llm (JDict kvs) = Inr (JDict kvs3)"
    and "map_of kvs3 k = Some v3"
  shows "\<exists>v v2. map_of kvs k = Some v \<and> simplify_value v2 = Inr v3 \<and>
           (v2 = v \<or> (k = ''anyOf'' \<and> py_slice3 v = Inr v2 \<and> (\<exists>n. py_len v = Some n \<and> 5 < n)))"
proof -
  from assms(1) obtain kvs1 kvs2 where
    r: "pattern_rule kvs = Inr kvs1" "anyOf_rule kvs1 = Inr kvs2"
      "simplify_entries kvs2 = Inr kvs3"
    using simplify_dict_shape by blast
  from r(3) assms(2) obtain v2 where v2: "map_of kvs2 k = Some v2" "simplify_value v2 = Inr v3"
    by (auto simp: simplify_entries_map_of split: option.splits sum.splits)
  from rules_lookup [OF r(1,2) v2(1)] v2(2) show ?thesis by blast
qed

lemma simplify_dict_is_dict:
  "simplify_schema_for_llm (JDict kvs) = Inr out \<Longrightarrow> \<exists>kvs3. out = JDict kvs3"
  using simplify_dict_shape by blast

lemma simplify_item_dict:
  "is_dict x \<Longrightarrow> simplify_item x = simplify_schema_for_llm x"
  by (cases x) simp_all

lemma simplify_subtree:
  "walked inp p \<Longrightarrow> simplify_schema_for_llm inp = Inr out \<Longrightarrow>
   node_at inp p = Some s \<Longrightarrow> node_at out p = Some t \<Longrightarrow>
   simplify_schema_for_llm s = Inr t"
proof (induction inp p arbitrary: out rule: walked.induct)
  case (1 v)
  then show ?case by simp
next
  case (2 kvs k p)
  from "2.prems"(2) obtain kvs3 where out: "out = JDict kvs3"
    using simplify_dict_is_dict by blast
  from "2.prems"(3) obtain v where v: "map_of kvs k = Some v" "node_at v p = Some s"
    by (auto split: option.splits)
  from "2.prems"(4) out obtain v3 where v3: "map_of kvs3 k = Some v3" "node_at v3 p = Some t"
    by (auto split: option.splits)
  from simplify_dict_lookup [OF "2.prems"(2) [unfolded out] v3(1)] v(1)
  obtain v2 where v2: "simplify_value v2 = Inr v3"
    "v2 = v \<or> (k = ''anyOf'' \<and> py_slice3 v = Inr v2 \<and> (\<exists>n. py_len v = Some n \<and> 5 < n))"
    by auto
  show ?case
  proof (cases v)
    case (JDict kvs')
    with v2 have "simplify_schema_for_llm (JDict kvs') = Inr v3" by auto
    moreover from "2.prems"(1) v(1) JDict have "walked (JDict kvs') p" by simp
    ultimately show ?thesis
      using "2.IH"(2) [OF v(1) JDict] v(2) v3(2) JDict by blast
  next
    case (JList xs)
    with "2.prems"(1) v(1) obtain i p' where p: "p = Idx i # p'" "i < length xs"
      "is_dict (xs ! i)" "walked (xs ! i) p'"
      by (auto split: list.splits step.splits)
    from v2(2) JList obtain zs where zs: "v2 = JList zs" "zs = xs \<or> zs = take 3 xs"
      by auto
    with v2(1) obtain ys where ys: "v3 = JList ys" "simplify_items zs = Inr ys"
      by (auto split: sum.splits)
    from v3(2) ys(1) p(1) have i: "i < length ys" "node_at (ys ! i) p' = Some t"
      by (auto split: if_splits)
    with ys(2) have iz: "i < length zs" by (simp add: simplify_items_length)
    with zs(2) have same: "zs ! i = xs ! i" by auto
    from simplify_items_nth [OF ys(2) iz] same p(3)
    have "simplify_schema_for_llm (xs ! i) = Inr (ys ! i)"
      by (simp add: simplify_item_dict)
    moreover from v(2) JList p(1,2) have "node_at (xs ! i) p' = Some s" by simp
    ultimately show ?thesis
      using "2.IH"(1) [OF v(1) JList p(1) refl p(4)] i(2) by blast
  qed (use "2.prems"(1) v(1) in auto)
qed auto

lemma pattern_rule_other:
  "pattern_rule kvs = Inr kvs1 \<Longrightarrow> k \<noteq> ''pattern'' \<Longrightarrow> map_of kvs1 k = map_of kvs k"
  by (auto simp: pattern_rule_def split: option.splits if_splits)

lemma anyOf_rule_other:
  "anyOf_rule kvs1 = Inr kvs2 \<Longrightarrow> k \<noteq> ''anyOf'' \<Longrightarrow> map_of kvs2 k = map_of kvs1 k"
  by (auto simp: anyOf_rule_def AList.update_conv' split: option.splits if_splits sum.splits)

lemma pattern_rule_pattern:
  assumes "pattern_rule kvs = Inr kvs1" and "map_of kvs ''pattern'' = Some v"
  shows "\<exists>n. py_len v = Some n \<and> map_of kvs1 ''pattern'' = (if 50 < n then None else Some v)"
proof (cases "py_len v")
  case None
  with assms show ?thesis by (simp add: pattern_rule_def)
next
  case (Some n)
  with assms have "kvs1 = (if 50 < n then AList.delete ''pattern'' kvs else kvs)"
    by (simp add: pattern_rule_def)
  with assms(2) Some show ?thesis
    by (simp add: AList.delete_conv')
qed

lemma anyOf_rule_anyOf:
  assumes "anyOf_rule kvs1 = Inr kvs2" and "map_of kvs1 ''anyOf'' = Some v"
  shows "\<exists>n. py_len v = Some n \<and>
     (if 5 < n then \<exists>v'. py_slice3 v = Inr v' \<and> map_of kvs2 ''anyOf'' = Some v'
      else map_of kvs2 ''anyOf'' = Some v)"
proof (cases "py_len v")
  case None
  with assms show ?thesis by (simp add: anyOf_rule_def)
next
  case (Some n)
  show ?thesis
  proof (cases "5 < n")
    case True
    with assms Some obtain v' where "py_slice3 v = Inr v'" "kvs2 = AList.update ''anyOf'' v' kvs1"
      by (cases "py_slice3 v") (simp_all add: anyOf_rule_def)
    with Some True show ?thesis by (simp add: AList.update_conv')
  next
    case False
    with assms Some have "kvs2 = kvs1" by (simp add: anyOf_rule_def)
    with assms(2) Some False show ?thesis by simp
  qed
qed

lemma simplify_entries_forward:
  "simplify_entries kvs = Inr kvs' \<Longrightarrow> map_of kvs k = Some v \<Longrightarrow>
   \<exists>v'. simplify_value v = Inr v' \<and> map_of kvs' k = Some v'"
  unfolding simplify_entries_iff
  by (induction kvs kvs' rule: list_all2_induct) (auto split: if_splits)

lemma simplify_entries_absent:
  "simplify_entries kvs = Inr kvs' \<Longrightarrow> map_of kvs k = None \<Longrightarrow> map_of kvs' k = None"
  by (simp add: simplify_entries_map_of)

lemma pattern_local:
  assumes "simplify_schema_for_llm (JDict kvs) = Inr t"
    and "map_of kvs ''pattern'' = Some v"
  shows "\<exists>n kvs'. py_len v = Some n \<and> t = JDict kvs' \<and>
           (if 50 < n then map_of kvs' ''pattern'' = None
            else \<exists>v'. simplify_value v = Inr v' \<and> map_of kvs' ''pattern'' = Some v')"
proof -
  from assms(1) obtain kvs1 kvs2 kvs3 where
    r: "pattern_rule kvs = Inr kvs1" "anyOf_rule kvs1 = Inr kvs2"
      "simplify_entries kvs2 = Inr kvs3" "t = JDict kvs3"
    using simplify_dict_shape by blast
  from pattern_rule_pattern [OF r(1) assms(2)] obtain n where
    n: "py_len v = Some n" "map_of kvs1 ''pattern'' = (if 50 < n then None else Some v)"
    by blast
  have "map_of kvs2 ''pattern'' = map_of kvs1 ''pattern''"
    using anyOf_rule_other [OF r(2)] by simp
  with n(2) have "map_of kvs2 ''pattern'' = (if 50 < n then None else Some v)" by simp
  then have "if 50 < n then map_of kvs3 ''pattern'' = None
        else \<exists>v'. simplify_value v = Inr v' \<and> map_of kvs3 ''pattern'' = Some v'"
    using simplify_entries_forward [OF r(3)] simplify_entries_absent [OF r(3)]
    by (simp split: if_splits)
  with n(1) r(4) show ?thesis by auto
qed

lemma anyOf_local:
  assumes "simplify_schema_for_llm (JDict kvs) = Inr t"
    and "map_of kvs ''anyOf'' = Some (JList xs)"
  shows "\<exists>kvs' ys. t = JDict kvs' \<and> map_of kvs' ''anyOf'' = Some (JList ys) \<and>
           simplify_items (if 5 < length xs then take 3 xs else xs) = Inr ys"
proof -
  from assms(1) obtain kvs1 kvs2 kvs3 where
    r: "pattern_rule kvs = Inr kvs1" "anyOf_rule kvs1 = Inr kvs2"
      "simplify_entries kvs2 = Inr kvs3" "t = JDict kvs3"
    using simplify_dict_shape by blast
  have "map_of kvs1 ''anyOf'' = Some (JList xs)"
    using pattern_rule_other [OF r(1)] assms(2) by simp
  from anyOf_rule_anyOf [OF r(2) this]
  have "map_of kvs2 ''anyOf'' = Some (JList (if 5 < length xs then take 3 xs else xs))"
    by (auto split: if_splits)
  from simplify_entries_forward [OF r(3) this] r(4) show ?thesis
    by (auto split: sum.splits)
qed

lemma other_key_local:
  assumes "simplify_schema_for_llm (JDict kvs) = Inr t"
    and "map_of kvs k = Some v" and "k \<noteq> ''pattern''" and "k \<noteq> ''anyOf''"
  shows "\<exists>kvs' v'. t = JDict kvs' \<and> map_of kvs' k = Some v' \<and> simplify_value v = Inr v'"
proof -
  from assms(1) obtain kvs1 kvs2 kvs3 where
    r: "pattern_rule kvs = Inr kvs1" "anyOf_rule kvs1 = Inr kvs2"
      "simplify_entries kvs2 = Inr kvs3" "t = JDict kvs3"
    using simplify_dict_shape by blast
  have "map_of kvs2 k = Some v"
    using pattern_rule_other [OF r(1) assms(3)] anyOf_rule_other [OF r(2) assms(4)] assms(2)
    by simp
  from simplify_entries_forward [OF r(3) this] r(4) show ?thesis by auto
qed

lemma unsized_pattern_raises:
  "map_of kvs ''pattern'' = Some v \<Longrightarrow> py_len v = None \<Longrightarrow>
   simplify_schema_for_llm (JDict kvs) = Inl TypeError"
  by (simp add: pattern_rule_def)

lemma unsized_anyOf_raises:
  "map_of kvs ''pattern'' = None \<Longrightarrow> map_of kvs ''anyOf'' = Some v \<Longrightarrow> py_len v = None \<Longrightarrow>
   simplify_schema_for_llm (JDict kvs) = Inl TypeError"
  by (simp add: pattern_rule_def anyOf_rule_def)

lemma node_at_list_dict:
  assumes "node_at (JList xs) p = Some s" and "is_dict s"
  shows "\<exists>i p'. p = Idx i # p' \<and> i < length xs \<and> node_at (xs ! i) p' = Some s"
proof (cases p)
  case Nil
  with assms show ?thesis by auto
next
  case (Cons st p')
  with assms show ?thesis by (cases st) (auto split: if_splits)
qed

lemma node_at_dict_source:
  "node_at v p = Some s \<Longrightarrow> is_dict s \<Longrightarrow> is_dict v \<or> (\<exists>xs. v = JList xs)"
  by (cases "(v, p)" rule: node_at.cases) auto

lemma idx_step_unchanged:
  "simplify_schema_for_llm v = Inr out \<Longrightarrow> node_at v (Idx i # p) = Some s \<Longrightarrow>
   node_at out (Idx i # p) = Some t \<Longrightarrow> t = s"
  by (cases v) (auto split: sum.splits)

lemma unwalked_unchanged:
  "\<not> walked inp p \<Longrightarrow> simplify_schema_for_llm inp = Inr out \<Longrightarrow>
   node_at inp p = Some s \<Longrightarrow> is_dict s \<Longrightarrow> node_at out p = Some t \<Longrightarrow> t = s"
proof (induction inp p arbitrary: out rule: walked.induct)
  case (1 v)
  then show ?case by simp
next
  case (2 kvs k p)
  from "2.prems"(2) obtain kvs3 where out: "out = JDict kvs3"
    using simplify_dict_is_dict by blast
  from "2.prems"(3) obtain v where v: "map_of kvs k = Some v" "node_at v p = Some s"
    by (auto split: option.splits)
  from "2.prems"(5) out obtain v3 where v3: "map_of kvs3 k = Some v3" "node_at v3 p = Some t"
    by (auto split: option.splits)
  from simplify_dict_lookup [OF "2.prems"(2) [unfolded out] v3(1)] v(1)
  obtain v2 where v2: "simplify_value v2 = Inr v3"
    "v2 = v \<or> (k = ''anyOf'' \<and> py_slice3 v = Inr v2 \<and> (\<exists>n. py_len v = Some n \<and> 5 < n))"
    by auto
  show ?case
  proof (cases v)
    case (JDict kvs')
    with v2 have "simplify_schema_for_llm (JDict kvs') = Inr v3" by auto
    moreover from "2.prems"(1) v(1) JDict have "\<not> walked (JDict kvs') p" by simp
    ultimately show ?thesis
      using "2.IH"(2) [OF v(1) JDict] v(2) v3(2) JDict "2.prems"(4) by blast
  next
    case (JList xs)
    from v2(2) JList obtain zs where zs: "v2 = JList zs" "zs = xs \<or> zs = take 3 xs"
      by auto
    with v2(1) obtain ys where ys: "v3 = JList ys" "simplify_items zs = Inr ys"
      by (auto split: sum.splits)
    from v(2) JList "2.prems"(4) obtain i p' where p: "p = Idx i # p'" "i < length xs"
      "node_at (xs ! i) p' = Some s"
      using node_at_list_dict by blast
    from v3(2) ys(1) p(1) have i: "i < length ys" "node_at (ys ! i) p' = Some t"
      by (auto split: if_splits)
    with ys(2) have iz: "i < length zs" by (simp add: simplify_items_length)
    with zs(2) have same: "zs ! i = xs ! i" by auto
    show ?thesis
    proof (cases "is_dict (xs ! i)")
      case True
      with simplify_items_nth [OF ys(2) iz] same
      have "simplify_schema_for_llm (xs ! i) = Inr (ys ! i)"
        by (simp add: simplify_item_dict)
      moreover from "2.prems"(1) v(1) JList p(1,2) True have "\<not> walked (xs ! i) p'"
        by simp
      ultimately show ?thesis
        using "2.IH"(1) [OF v(1) JList p(1) refl] p(3) i(2) "2.prems"(4) by blast
    next
      case False
      then have "simplify_item (xs ! i) = Inr (xs ! i)"
        by (cases "xs ! i") simp_all
      with simplify_items_nth [OF ys(2) iz] same have "ys ! i = xs ! i" by simp
      with p(3) i(2) show ?thesis by simp
    qed
  qed (use node_at_dict_source [OF v(2) "2.prems"(4)] in auto)
qed (auto split: if_splits dest: idx_step_unchanged)

subsection \<open>Inputs on which the transform cannot raise\<close>

lemma typed_dict:
  "typed (JDict kvs) \<longleftrightarrow>
     (case map_of kvs ''pattern'' of None \<Rightarrow> True | Some v \<Rightarrow> is_str v) \<and>
     (case map_of kvs ''anyOf'' of None \<Rightarrow> True | Some v \<Rightarrow> is_list v) \<and>
     (\<forall>kv \<in> set kvs. typed (snd kv))"
  by (auto simp: typed_def list_all_iff)

lemma typed_list: "typed (JList xs) \<longleftrightarrow> (\<forall>x \<in> set xs. typed x)"
  by (auto simp: typed_def list_all_iff)

lemma set_update_subset: "set (AList.update k v al) \<subseteq> insert (k, v) (set al)"
  by (induction al) auto

lemma typed_pattern_rule:
  assumes "typed (JDict kvs)"
  shows "\<exists>kvs1. pattern_rule kvs = Inr kvs1 \<and> set kvs1 \<subseteq> set kvs \<and>
           map_of kvs1 ''anyOf'' = map_of kvs ''anyOf''"
proof (cases "map_of kvs ''pattern''")
  case None
  then show ?thesis by (simp add: pattern_rule_def)
next
  case (Some v)
  with assms obtain s where "v = JStr s" by (cases v) (auto simp: typed_dict)
  with Some obtain kvs1 where k1: "pattern_rule kvs = Inr kvs1"
    "kvs1 = (if 50 < length s then AList.delete ''pattern'' kvs else kvs)"
    by (simp add: pattern_rule_def)
  from k1(2) have "set kvs1 \<subseteq> set kvs" by (auto simp: AList.delete_eq)
  with k1(1) pattern_rule_other [OF k1(1), of "''anyOf''"] show ?thesis by simp
qed

lemma typed_anyOf_rule:
  assumes "case map_of kvs1 ''anyOf'' of None \<Rightarrow> True | Some v \<Rightarrow> is_list v"
    and "\<forall>kv \<in> set kvs1. typed (snd kv)"
  shows "\<exists>kvs2. anyOf_rule kvs1 = Inr kvs2 \<and> (\<forall>kv \<in> set kvs2. typed (snd kv))"
proof (cases "map_of kvs1 ''anyOf''")
  case None
  with assms show ?thesis by (simp add: anyOf_rule_def)
next
  case (Some v)
  with assms(1) obtain xs where v: "v = JList xs" by (cases v) auto
  from Some have "(''anyOf'', v) \<in> set kvs1" by (rule map_of_SomeD)
  with assms(2) v have "typed (JList xs)" by fastforce
  then have t3: "typed (JList (take 3 xs))"
    by (auto simp: typed_list dest: in_set_takeD)
  show ?thesis
  proof (cases "5 < length xs")
    case True
    with Some v have "anyOf_rule kvs1 = Inr (AList.update ''anyOf'' (JList (take 3 xs)) kvs1)"
      by (simp add: anyOf_rule_def)
    moreover have "\<forall>kv \<in> set (AList.update ''anyOf'' (JList (take 3 xs)) kvs1). typed (snd kv)"
      using set_update_subset [of "''anyOf''" "JList (take 3 xs)" kvs1] assms(2) t3 by auto
    ultimately show ?thesis by blast
  next
    case False
    with Some v assms(2) show ?thesis by (simp add: anyOf_rule_def)
  qed
qed

lemma typed_total:
  "typed s \<Longrightarrow> \<exists>t. simplify_schema_for_llm s = Inr t"
  "\<forall>kv \<in> set kvs. typed (snd kv) \<Longrightarrow> \<exists>kvs'. simplify_entries kvs = Inr kvs'"
  "typed v \<Longrightarrow> \<exists>v'. simplify_value v = Inr v'"
  "\<forall>x \<in> set xs. typed x \<Longrightarrow> \<exists>ys. simplify_items xs = Inr ys"
  "typed i \<Longrightarrow> \<exists>i'. simplify_item i = Inr i'"
proof (induction s and kvs and v and xs and i
    rule: simplify_schema_for_llm_simplify_entries_simplify_value_simplify_items_simplify_item.induct)
  case (1 kvs)
  from typed_pattern_rule [OF "1.prems"] obtain kvs1 where
    k1: "pattern_rule kvs = Inr kvs1" "set kvs1 \<subseteq> set kvs"
      "map_of kvs1 ''anyOf'' = map_of kvs ''anyOf''"
    by blast
  from "1.prems" k1(2,3) have
    "case map_of kvs1 ''anyOf'' of None \<Rightarrow> True | Some v \<Rightarrow> is_list v"
    "\<forall>kv \<in> set kvs1. typed (snd kv)"
    by (auto simp: typed_dict)
  from typed_anyOf_rule [OF this] obtain kvs2 where
    k2: "anyOf_rule kvs1 = Inr kvs2" "\<forall>kv \<in> set kvs2. typed (snd kv)"
    by blast
  from "1.IH" [OF k1(1) k2(1) k2(2)] obtain kvs3 where "simplify_entries kvs2 = Inr kvs3"
    by blast
  with k1(1) k2(1) show ?case by simp
next
  case (4 key v rest)
  from "4.prems" "4.IH"(1) obtain v' where v': "simplify_value v = Inr v'" by auto
  from "4.prems" "4.IH"(2) [OF v'] obtain rest' where "simplify_entries rest = Inr rest'"
    by auto
  with v' show ?case by simp
next
  case (6 items)
  then obtain ys where "simplify_items items = Inr ys" by (auto simp: typed_list)
  then show ?case by simp
next
  case (9 item rest)
  from "9.prems" "9.IH"(1) obtain i' where i': "simplify_item item = Inr i'" by auto
  from "9.prems" "9.IH"(2) [OF i'] obtain rest' where "simplify_items rest = Inr rest'"
    by auto
  with i' show ?case by simp
qed simp_all

lemma length_sixty: "length sixty = 60"
  by (simp add: sixty_def)

subsection \<open>Nodes that a run reaches\<close>

lemma simplify_dict_forward:
  assumes "simplify_schema_for_llm (JDict kvs) = Inr out"
    and "map_of kvs k = Some v" and "\<not> deleted k v"
  shows "\<exists>kvs3 v2 v3. out = JDict kvs3 \<and> map_of kvs3 k = Some v3 \<and> simplify_value v2 = Inr v3 \<and>
           (v2 = v \<or> (k = ''anyOf'' \<and> py_slice3 v = Inr v2 \<and> (\<exists>n. py_len v = Some n \<and> 5 < n)))"
proof -
  from assms(1) obtain kvs1 kvs2 kvs3 where
    r: "pattern_rule kvs = Inr kvs1" "anyOf_rule kvs1 = Inr kvs2"
      "simplify_entries kvs2 = Inr kvs3" "out = JDict kvs3"
    using simplify_dict_shape by blast
  have k1: "map_of kvs1 k = Some v"
  proof (cases "k = ''pattern''")
    case True
    with pattern_rule_pattern [OF r(1)] assms(2,3) show ?thesis
      by (auto simp: deleted_def split: if_splits)
  next
    case False
    with pattern_rule_other [OF r(1)] assms(2) show ?thesis by simp
  qed
  have "\<exists>v2. map_of kvs2 k = Some v2 \<and>
          (v2 = v \<or> (k = ''anyOf'' \<and> py_slice3 v = Inr v2 \<and> (\<exists>n. py_len v = Some n \<and> 5 < n)))"
  proof (cases "k = ''anyOf''")
    case True
    with anyOf_rule_anyOf [OF r(2)] k1 show ?thesis
      by (auto split: if_splits)
  next
    case False
    with anyOf_rule_other [OF r(2)] k1 show ?thesis by simp
  qed
  then obtain v2 where v2: "map_of kvs2 k = Some v2"
    "v2 = v \<or> (k = ''anyOf'' \<and> py_slice3 v = Inr v2 \<and> (\<exists>n. py_len v = Some n \<and> 5 < n))"
    by blast
  from simplify_entries_forward [OF r(3) v2(1)] r(4) v2(2) show ?thesis by blast
qed

lemma reached_present:
  "reached inp p \<Longrightarrow> simplify_schema_for_llm inp = Inr out \<Longrightarrow>
   node_at inp p = Some s \<Longrightarrow> \<exists>t. node_at out p = Some t"
proof (induction inp p arbitrary: out rule: reached.induct)
  case (1 v)
  then show ?case by simp
next
  case (2 kvs k p)
  from "2.prems"(3) obtain v where v: "map_of kvs k = Some v" "node_at v p = Some s"
    by (auto split: option.splits)
  from "2.prems"(1) v(1) have nd: "\<not> deleted k v" by simp
  from simplify_dict_forward [OF "2.prems"(2) v(1) nd] obtain kvs3 v2 v3 where
    f: "out = JDict kvs3" "map_of kvs3 k = Some v3" "simplify_value v2 = Inr v3"
      "v2 = v \<or> (k = ''anyOf'' \<and> py_slice3 v = Inr v2 \<and> (\<exists>n. py_len v = Some n \<and> 5 < n))"
    by blast
  show ?case
  proof (cases v)
    case (JDict kvs')
    with f(3,4) have "simplify_schema_for_llm (JDict kvs') = Inr v3" by auto
    moreover from "2.prems"(1) v(1) JDict have "reached (JDict kvs') p" by simp
    ultimately have "\<exists>t. node_at v3 p = Some t"
      using "2.IH"(2) [OF v(1) JDict] v(2) JDict by blast
    with f(1,2) show ?thesis by simp
  next
    case (JList xs)
    with "2.prems"(1) v(1) obtain i p' where p: "p = Idx i # p'" "i < kept k xs"
      "is_dict (xs ! i)" "reached (xs ! i) p'"
      by (auto split: list.splits step.splits)
    from f(4) JList obtain zs where zs: "v2 = JList zs"
      "zs = xs \<or> (k = ''anyOf'' \<and> 5 < length xs \<and> zs = take 3 xs)"
      by auto
    with f(3) obtain ys where ys: "v3 = JList ys" "simplify_items zs = Inr ys"
      by (auto split: sum.splits)
    from zs(2) p(2) have iz: "i < length zs" "zs ! i = xs ! i"
      by (auto simp: kept_def split: if_splits)
    with ys(2) have iy: "i < length ys" by (simp add: simplify_items_length)
    from simplify_items_nth [OF ys(2) iz(1)] iz(2) p(3)
    have "simplify_schema_for_llm (xs ! i) = Inr (ys ! i)"
      by (simp add: simplify_item_dict)
    moreover from v(2) JList p(1) iz have "node_at (xs ! i) p' = Some s"
      using zs(2) by (auto split: if_splits)
    ultimately have "\<exists>t. node_at (ys ! i) p' = Some t"
      using "2.IH"(1) [OF v(1) JList p(1) refl] p(4) by blast
    with f(1,2) ys(1) p(1) iy show ?thesis by simp
  qed (use "2.prems"(1) v(1) in auto)
qed auto

lemma reached_walked: "reached v p \<Longrightarrow> walked v p"
proof (induction v p rule: reached.induct)
  case (2 kvs k p)
  then show ?case
    by (auto simp: kept_def split: option.splits json.splits list.splits step.splits if_splits)
qed auto

subsection \<open>The exceptions of the transform\<close>

lemma rule_errors:
  "pattern_rule kvs = Inl e \<Longrightarrow> e = TypeError"
  "anyOf_rule kvs = Inl e \<Longrightarrow> e = TypeError \<or> e = SliceError"
proof -
  show "pattern_rule kvs = Inl e \<Longrightarrow> e = TypeError"
    by (cases "map_of kvs ''pattern''"; cases "py_len (the (map_of kvs ''pattern''))")
       (simp_all add: pattern_rule_def)
  show "anyOf_rule kvs = Inl e \<Longrightarrow> e = TypeError \<or> e = SliceError"
  proof (cases "map_of kvs ''anyOf''")
    case None
    assume "anyOf_rule kvs = Inl e"
    with None show ?thesis by (simp add: anyOf_rule_def)
  next
    case (Some v)
    assume a: "anyOf_rule kvs = Inl e"
    show ?thesis
    proof (cases v)
      case (JDict d)
      with a Some show ?thesis by (simp add: anyOf_rule_def split: if_splits)
    qed (use a Some in \<open>simp_all add: anyOf_rule_def split: if_splits\<close>)
  qed
qed

lemma simplify_errors:
  "simplify_schema_for_llm s = Inl e \<Longrightarrow> e = TypeError \<or> e = SliceError"
  "simplify_entries kvs = Inl e \<Longrightarrow> e = TypeError \<or> e = SliceError"
  "simplify_value v = Inl e \<Longrightarrow> e = TypeError \<or> e = SliceError"
  "simplify_items xs = Inl e \<Longrightarrow> e = TypeError \<or> e = SliceError"
  "simplify_item i = Inl e \<Longrightarrow> e = TypeError \<or> e = SliceError"
proof (induction s and kvs and v and xs and i
    rule: simplify_schema_for_llm_simplify_entries_simplify_value_simplify_items_simplify_item.induct)
  case (1 kvs)
  show ?case
  proof (cases "pattern_rule kvs")
    case (Inl a)
    with "1.prems" rule_errors(1) [of kvs a] show ?thesis by simp
  next
    case (Inr kvs1)
    note k1 = this
    show ?thesis
    proof (cases "anyOf_rule kvs1")
      case (Inl a)
      with "1.prems" k1 rule_errors(2) [of kvs1 a] show ?thesis by simp
    next
      case (Inr kvs2)
      with "1.prems" k1 "1.IH" [OF k1 Inr] show ?thesis
        by (simp split: sum.splits)
    qed
  qed
qed (auto split: sum.splits)

section \<open>Lemmas on the export run\<close>

subsection \<open>One iteration\<close>

lemma print_outcome:
  "print_ok env m \<Longrightarrow> print env w m = (None, w\<lparr>console := console w @ [m]\<rparr>)"
  "\<not> print_ok env m \<Longrightarrow> print env w m = (Some PrintError, w)"
  by (simp_all add: print_def)

lemma print_files: "files (snd (print env w m)) = files w"
  by (simp add: print_def)

lemma print_console: "set (console w) \<subseteq> set (console (snd (print env w m)))"
  by (auto simp: print_def)

lemma try_block_failed:
  assumes "model_result env name = Inl e"
  shows "\<exists>w'. try_block env name (ex, w) = (Some e, (ex, w')) \<and> console w' = console w \<and>
           (\<forall>f. f \<noteq> schema_file name \<longrightarrow> files w' f = files w f)"
  using assms
  by (auto simp: model_result_def write_json_def
      split: sum.splits write_outcome.splits)

lemma try_block_ok:
  assumes "model_result env name = Inr t"
  shows "try_block env name (ex, w) =
           (if print_ok env (ExtractedOk name) then None else Some PrintError,
            (AList.update name t ex,
             \<lparr>files = (files w)(schema_file name \<mapsto> Written t),
              console = console w @ (if print_ok env (ExtractedOk name) then [ExtractedOk name] else [])\<rparr>))"
  using assms
  by (auto simp: model_result_def write_json_def print_def
      split: sum.splits write_outcome.splits)

declare try_block.simps [simp del]

lemma extract_one_failed:
  assumes "model_result env name = Inl e"
  shows "\<exists>w'. extract_one env name (ex, w) =
             (if print_ok env (ExtractFailed name e) then None else Some PrintError, (ex, w')) \<and>
           console w' = console w @ (if print_ok env (ExtractFailed name e) then [ExtractFailed name e] else []) \<and>
           (\<forall>f. f \<noteq> schema_file name \<longrightarrow> files w' f = files w f)"
proof -
  from try_block_failed [OF assms, of ex w] obtain w1 where
    t: "try_block env name (ex, w) = (Some e, (ex, w1))" "console w1 = console w"
      "\<forall>f. f \<noteq> schema_file name \<longrightarrow> files w1 f = files w f"
    by blast
  then show ?thesis by (simp add: print_def)
qed

lemma extract_one_ok:
  assumes "model_result env name = Inr t"
  shows "\<exists>w'. extract_one env name (ex, w) =
             (if iteration_ok env name then None else Some PrintError,
              (AList.update name t ex, w')) \<and>
           files w' = (files w)(schema_file name \<mapsto> Written t) \<and>
           set (console w) \<subseteq> set (console w')"
  using assms
  by (auto simp: try_block_ok print_def iteration_ok_def)

declare extract_one.simps [simp del]

lemma extract_one_raised:
  "fst (extract_one env name (ex, w)) = (if iteration_ok env name then None else Some PrintError)"
proof (cases "model_result env name")
  case (Inl e)
  with extract_one_failed [OF Inl, of ex w] show ?thesis
    by (auto simp: iteration_ok_def)
next
  case (Inr t)
  with extract_one_ok [OF Inr, of ex w] show ?thesis by auto
qed

lemma extract_one_extracted:
  "fst (snd (extract_one env name (ex, w))) =
     (case model_result env name of Inl e \<Rightarrow> ex | Inr t \<Rightarrow> AList.update name t ex)"
proof (cases "model_result env name")
  case (Inl e)
  with extract_one_failed [OF Inl, of ex w] show ?thesis by auto
next
  case (Inr t)
  with extract_one_ok [OF Inr, of ex w] show ?thesis by auto
qed

lemma extract_one_other_file:
  "f \<noteq> schema_file name \<Longrightarrow> files (snd (snd (extract_one env name (ex, w)))) f = files w f"
proof (cases "model_result env name")
  case (Inl e)
  assume "f \<noteq> schema_file name"
  with extract_one_failed [OF Inl, of ex w] show ?thesis by auto
next
  case (Inr t)
  assume "f \<noteq> schema_file name"
  with extract_one_ok [OF Inr, of ex w] show ?thesis by auto
qed

lemma extract_one_own_file:
  "model_result env name = Inr t \<Longrightarrow>
   files (snd (snd (extract_one env name (ex, w)))) (schema_file name) = Some (Written t)"
  using extract_one_ok [of env name t ex w] by auto



subsection \<open>The loop\<close>

lemma extract_loop_raised:
  "fst (extract_loop env names (ex, w)) =
     (if list_all (iteration_ok env) names then None else Some PrintError)"
proof (induction names arbitrary: ex w)
  case Nil
  then show ?case by simp
next
  case (Cons n ns)
  obtain r ex1 w1 where st: "extract_one env n (ex, w) = (r, (ex1, w1))"
    by (cases "extract_one env n (ex, w)") auto
  with extract_one_raised [of env n ex w]
  have r: "r = (if iteration_ok env n then None else Some PrintError)" by simp
  show ?case
    using st r Cons.IH [of ex1 w1] by (cases "iteration_ok env n") simp_all
qed

lemma extract_loop_step:
  assumes "iteration_ok env n"
  obtains ex1 w1 where "extract_one env n (ex, w) = (None, (ex1, w1))"
    and "extract_loop env (n # ns) (ex, w) = extract_loop env ns (ex1, w1)"
proof -
  obtain r ex1 w1 where st: "extract_one env n (ex, w) = (r, (ex1, w1))"
    by (cases "extract_one env n (ex, w)") auto
  with extract_one_raised [of env n ex w] assms have "r = None" by simp
  with st that show ?thesis by simp
qed

lemma extract_loop_other_file:
  "f \<notin> schema_file ` set names \<Longrightarrow>
   files (snd (snd (extract_loop env names (ex, w)))) f = files w f"
proof (induction names arbitrary: ex w)
  case Nil
  then show ?case by simp
next
  case (Cons n ns)
  obtain r ex1 w1 where st: "extract_one env n (ex, w) = (r, (ex1, w1))"
    by (cases "extract_one env n (ex, w)") auto
  from Cons.prems have "files w1 f = files w f"
    using extract_one_other_file [of f n env ex w] st by simp
  with Cons st show ?case by (cases r) simp_all
qed



lemma extract_loop_file:
  "list_all (iteration_ok env) names \<Longrightarrow> distinct (map schema_file names) \<Longrightarrow>
   name \<in> set names \<Longrightarrow> model_result env name = Inr t \<Longrightarrow>
   files (snd (snd (extract_loop env names (ex, w)))) (schema_file name) = Some (Written t)"
proof (induction names arbitrary: ex w)
  case Nil
  then show ?case by simp
next
  case (Cons n ns)
  from Cons.prems(1) have ok: "iteration_ok env n" "list_all (iteration_ok env) ns"
    by simp_all
  from ok(1) obtain ex1 w1 where st: "extract_one env n (ex, w) = (None, (ex1, w1))"
    and lp: "extract_loop env (n # ns) (ex, w) = extract_loop env ns (ex1, w1)"
    by (rule extract_loop_step)
  show ?case
  proof (cases "name \<in> set ns")
    case True
    with Cons.IH [OF ok(2) _ True Cons.prems(4), of ex1 w1] Cons.prems(2) lp show ?thesis
      by simp
  next
    case False
    with Cons.prems have n: "name = n" "schema_file n \<notin> schema_file ` set ns"
      by auto
    with Cons.prems(4) st extract_one_own_file [of env n t ex w]
    have "files w1 (schema_file n) = Some (Written t)" by simp
    with extract_loop_other_file [OF n(2), of env ex1 w1] lp n(1) show ?thesis by simp
  qed
qed

lemma extract_loop_keys:
  "list_all (iteration_ok env) names \<Longrightarrow> distinct names \<Longrightarrow>
   set names \<inter> fst ` set ex = {} \<Longrightarrow>
   map fst (fst (snd (extract_loop env names (ex, w)))) =
     map fst ex @ filter (\<lambda>name. \<not> isl (model_result env name)) names"
proof (induction names arbitrary: ex w)
  case Nil
  then show ?case by simp
next
  case (Cons n ns)
  from Cons.prems(1) have ok: "iteration_ok env n" "list_all (iteration_ok env) ns"
    by simp_all
  from ok(1) obtain ex1 w1 where st: "extract_one env n (ex, w) = (None, (ex1, w1))"
    and lp: "extract_loop env (n # ns) (ex, w) = extract_loop env ns (ex1, w1)"
    by (rule extract_loop_step)
  from st have ex1: "ex1 = (case model_result env n of Inl e \<Rightarrow> ex | Inr t \<Rightarrow> AList.update n t ex)"
    using extract_one_extracted [of env n ex w] by simp
  from Cons.prems have fresh: "n \<notin> fst ` set ex" by auto
  have keys1: "map fst ex1 = map fst ex @ (if isl (model_result env n) then [] else [n])"
    using ex1 fresh by (cases "model_result env n") (simp_all add: AList.update_keys)
  with Cons.prems have "set ns \<inter> fst ` set ex1 = {}"
    by (auto simp: image_iff [symmetric] set_map [symmetric] simp del: set_map split: if_splits)
  with Cons.IH [OF ok(2), of ex1 w1] Cons.prems lp keys1 show ?case by simp
qed

lemma extract_loop_entry_kept:
  "list_all (iteration_ok env) names \<Longrightarrow> map_of ex name = Some t \<Longrightarrow>
   model_result env name = Inr t \<Longrightarrow>
   map_of (fst (snd (extract_loop env names (ex, w)))) name = Some t"
proof (induction names arbitrary: ex w)
  case Nil
  then show ?case by simp
next
  case (Cons n ns)
  from Cons.prems(1) have ok: "iteration_ok env n" "list_all (iteration_ok env) ns"
    by simp_all
  from ok(1) obtain ex1 w1 where st: "extract_one env n (ex, w) = (None, (ex1, w1))"
    and lp: "extract_loop env (n # ns) (ex, w) = extract_loop env ns (ex1, w1)"
    by (rule extract_loop_step)
  from st have ex1: "ex1 = (case model_result env n of Inl e \<Rightarrow> ex | Inr t \<Rightarrow> AList.update n t ex)"
    using extract_one_extracted [of env n ex w] by simp
  have "map_of ex1 name = Some t"
    using ex1 Cons.prems(2,3)
    by (cases "model_result env n"; cases "name = n") (auto simp: AList.update_conv')
  from Cons.IH [OF ok(2) this Cons.prems(3), of w1] lp show ?case by simp
qed

lemma extract_loop_entry:
  "list_all (iteration_ok env) names \<Longrightarrow> name \<in> set names \<Longrightarrow>
   model_result env name = Inr t \<Longrightarrow>
   map_of (fst (snd (extract_loop env names (ex, w)))) name = Some t"
proof (induction names arbitrary: ex w)
  case Nil
  then show ?case by simp
next
  case (Cons n ns)
  from Cons.prems(1) have ok: "iteration_ok env n" "list_all (iteration_ok env) ns"
    by simp_all
  from ok(1) obtain ex1 w1 where st: "extract_one env n (ex, w) = (None, (ex1, w1))"
    and lp: "extract_loop env (n # ns) (ex, w) = extract_loop env ns (ex1, w1)"
    by (rule extract_loop_step)
  from st have ex1: "ex1 = (case model_result env n of Inl e \<Rightarrow> ex | Inr t \<Rightarrow> AList.update n t ex)"
    using extract_one_extracted [of env n ex w] by simp
  show ?case
  proof (cases "name = n")
    case True
    with Cons.prems ex1 have "map_of ex1 name = Some t" by (simp add: AList.update_conv')
    from extract_loop_entry_kept [OF ok(2) this Cons.prems(3), of w1] lp show ?thesis by simp
  next
    case False
    with Cons.prems have "name \<in> set ns" by simp
    from Cons.IH [OF ok(2) this Cons.prems(3), of ex1 w1] lp show ?thesis by simp
  qed
qed

subsection \<open>The registry\<close>

lemma models_distinct: "distinct models"
  by (simp add: models_def)


lemma schema_files_of_registry:
  "map schema_file models =
     [''dandiset.schema.json'', ''person.schema.json'', ''organization.schema.json'',
      ''contributor.schema.json'', ''contactpoint.schema.json'', ''affiliation.schema.json'',
      ''assetssummary.schema.json'', ''accessrequirements.schema.json'',
      ''propertyvalue.schema.json'', ''resource.schema.json'', ''activity.schema.json'',
      ''project.schema.json'', ''session.schema.json'', ''equipment.schema.json'',
      ''software.schema.json'', ''agent.schema.json'', ''asset.schema.json'',
      ''bareasset.schema.json'']"
  by (simp add: models_def schema_file_def lower_def)

lemma schema_files_distinct: "distinct (map schema_file models)"
  by (simp add: models_def schema_file_def lower_def)

lemma combined_not_schema_file: "''all_schemas.json'' \<notin> schema_file ` set models"
  by (simp add: models_def schema_file_def lower_def)

lemma summary_not_schema_file: "''schema_summary.json'' \<notin> schema_file ` set models"
  by (simp add: models_def schema_file_def lower_def)

lemma schema_file_not_reserved:
  assumes "name \<in> set models"
  shows "schema_file name \<noteq> ''all_schemas.json''"
    and "schema_file name \<noteq> ''schema_summary.json''"
  using imageI [OF assms, of schema_file] combined_not_schema_file summary_not_schema_file
  by metis+


lemma filter_by_membership:
  "filter P xs = filter (\<lambda>x. x \<in> set (filter P xs)) xs"
  by (rule filter_cong) auto

lemma alist_determined:
  "distinct (map fst ex) \<Longrightarrow> \<forall>k \<in> set (map fst ex). map_of ex k = Some (f k) \<Longrightarrow>
   ex = map (\<lambda>k. (k, f k)) (map fst ex)"
proof (induction ex)
  case Nil
  then show ?case by simp
next
  case (Cons kv ex)
  obtain k v where kv: "kv = (k, v)" by (cases kv)
  from Cons.prems(2) have v: "v = f k" by (simp add: kv)
  have "map_of ex k' = Some (f k')" if "k' \<in> set (map fst ex)" for k'
  proof -
    from that Cons.prems(1) have "k' \<noteq> k" by (auto simp: kv)
    with Cons.prems(2) that show ?thesis by (force simp: kv)
  qed
  with Cons.IH Cons.prems(1) have "ex = map (\<lambda>k. (k, f k)) (map fst ex)" by simp
  with v kv show ?case by simp
qed

subsection \<open>The whole function\<close>

lemma loop_keys:
  "loop_ok env \<Longrightarrow> map fst (fst (snd (extract_loop env models ([], w)))) = succeeded env"
  using extract_loop_keys [OF _ models_distinct, of env "[]" w]
  by (simp add: loop_ok_def succeeded_def)

lemma loop_length:
  "loop_ok env \<Longrightarrow> length (fst (snd (extract_loop env models ([], w)))) = length (succeeded env)"
  using loop_keys [of env w] by (metis length_map)

lemma loop_keys_distinct:
  "loop_ok env \<Longrightarrow> distinct (map fst (fst (snd (extract_loop env models ([], w)))))"
  by (simp add: loop_keys succeeded_def models_distinct)

lemma loop_entry:
  assumes "loop_ok env"
    and "map_of (fst (snd (extract_loop env models ([], w)))) name = Some t"
  shows "name \<in> set models \<and> model_result env name = Inr t"
proof -
  from assms(2) have "name \<in> set (map fst (fst (snd (extract_loop env models ([], w)))))"
    by (metis map_of_eq_None_iff option.distinct(1) set_map)
  with assms(1) have m: "name \<in> set models" "\<not> isl (model_result env name)"
    by (simp_all add: loop_keys succeeded_def)
  then obtain t' where t': "model_result env name = Inr t'"
    by (cases "model_result env name") auto
  from assms(1) have "list_all (iteration_ok env) models" by (simp add: loop_ok_def)
  from extract_loop_entry [OF this m(1) t', of "[]" w] assms(2) have "t' = t" by simp
  with m(1) t' show ?thesis by simp
qed

lemma loop_completes:
  "loop_ok env \<Longrightarrow> fst (extract_loop env models ([], w)) = None"
  by (simp add: extract_loop_raised loop_ok_def)

lemma loop_aborts:
  "\<not> loop_ok env \<Longrightarrow> fst (extract_loop env models ([], w)) = Some PrintError"
  by (simp add: extract_loop_raised loop_ok_def)

lemma extract_schemas_aborted:
  assumes "mkdir_ok env" and "\<not> loop_ok env"
  shows "extract_schemas env w = (Inl PrintError, snd (snd (extract_loop env models ([], w))))"
  using assms loop_aborts [OF assms(2), of w]
  by (cases "extract_loop env models ([], w)") (auto simp: extract_schemas_def)

lemma extract_schemas_world:
  assumes "mkdir_ok env" and "loop_ok env"
  shows "set (console (snd (snd (extract_loop env models ([], w))))) \<subseteq>
           set (console (snd (extract_schemas env w)))"
    and "f \<noteq> ''all_schemas.json'' \<Longrightarrow> f \<noteq> ''schema_summary.json'' \<Longrightarrow>
         files (snd (extract_schemas env w)) f =
           files (snd (snd (extract_loop env models ([], w)))) f"
    and "file_write env ''all_schemas.json'' = WriteOk \<Longrightarrow>
         files (snd (extract_schemas env w)) ''all_schemas.json'' =
           Some (Written (JDict (fst (snd (extract_loop env models ([], w))))))"
  using assms(1) loop_completes [OF assms(2), of w]
  by (cases "extract_loop env models ([], w)";
      cases "file_write env ''all_schemas.json''";
      cases "file_write env ''schema_summary.json''";
      auto simp: extract_schemas_def write_json_def print_def)+

lemma extract_schemas_returns:
  assumes "mkdir_ok env" and "loop_ok env"
    and "file_write env ''all_schemas.json'' = WriteOk"
    and "print_ok env (ExtractedCount (length (succeeded env)))"
    and "print_ok env CombinedSaved"
    and "file_write env ''schema_summary.json'' = WriteOk"
  shows "extract_schemas env w =
           (Inr (fst (snd (extract_loop env models ([], w)))),
            \<lparr>files = (files (snd (snd (extract_loop env models ([], w)))))
                (''all_schemas.json'' \<mapsto>
                   Written (JDict (fst (snd (extract_loop env models ([], w))))),
                 ''schema_summary.json'' \<mapsto>
                   Written (summary env (fst (snd (extract_loop env models ([], w)))))),
             console = console (snd (snd (extract_loop env models ([], w)))) @
                [ExtractedCount (length (succeeded env)), CombinedSaved]\<rparr>)"
  using assms(1,3,4,5,6) loop_completes [OF assms(2), of w] loop_length [OF assms(2), of w]
  by (cases "extract_loop env models ([], w)")
     (auto simp: extract_schemas_def write_json_def print_def)

lemma extract_schemas_raises:
  assumes "\<not> (mkdir_ok env \<and> loop_ok env \<and>
              file_write env ''all_schemas.json'' = WriteOk \<and>
              print_ok env (ExtractedCount (length (succeeded env))) \<and>
              print_ok env CombinedSaved \<and>
              file_write env ''schema_summary.json'' = WriteOk)"
  shows "isl (fst (extract_schemas env w))"
proof (cases "mkdir_ok env")
  case False
  then show ?thesis by (simp add: extract_schemas_def)
next
  case True
  note mk = this
  show ?thesis
  proof (cases "loop_ok env")
    case False
    with extract_schemas_aborted [OF mk False, of w] show ?thesis by simp
  next
    case True
    with assms mk loop_completes [OF True, of w] loop_length [OF True, of w] show ?thesis
      by (cases "extract_loop env models ([], w)";
          cases "file_write env ''all_schemas.json''";
          cases "file_write env ''schema_summary.json''")
         (auto simp: extract_schemas_def write_json_def print_def)
  qed
qed

lemma extract_schemas_returned:
  assumes "extract_schemas env w = (Inr ex, w')"
  shows "mkdir_ok env \<and> loop_ok env \<and>
         file_write env ''all_schemas.json'' = WriteOk \<and>
         print_ok env (ExtractedCount (length (succeeded env))) \<and>
         print_ok env CombinedSaved \<and>
         file_write env ''schema_summary.json'' = WriteOk"
proof (rule ccontr)
  assume "\<not> ?thesis"
  from extract_schemas_raises [OF this, of w] assms show False by simp
qed

lemma extract_schemas_combined_unopened:
  assumes "mkdir_ok env" and "loop_ok env"
    and "file_write env ''all_schemas.json'' = OpenFails"
  shows "extract_schemas env w = (Inl OSError, snd (snd (extract_loop env models ([], w))))"
  using assms(1,3) loop_completes [OF assms(2), of w]
  by (cases "extract_loop env models ([], w)")
     (auto simp: extract_schemas_def write_json_def)

subsection \<open>The module\<close>



subsection \<open>The example environments\<close>

lemma env17_result:
  "model_result env17 name =
     (if name = ''Person'' then Inl ModelError else Inr (JDict [(''title'', JStr name)]))"
  by (simp add: model_result_def export_simplified_def env17_def pattern_rule_def
      anyOf_rule_def length_sixty)

lemma env17_loop_ok: "loop_ok env17"
  by (simp add: loop_ok_def iteration_ok_def list_all_iff env17_result)
     (simp add: env17_def)

lemma env17_extracted:
  "fst (snd (extract_loop env17 models ([], world0))) =
     map (\<lambda>name. (name, JDict [(''title'', JStr name)]))
       [''Dandiset'', ''Organization'', ''Contributor'', ''ContactPoint'', ''Affiliation'',
        ''AssetsSummary'', ''AccessRequirements'', ''PropertyValue'', ''Resource'',
        ''Activity'', ''Project'', ''Session'', ''Equipment'', ''Software'', ''Agent'',
        ''Asset'', ''BareAsset'']"
proof -
  let ?ex = "fst (snd (extract_loop env17 models ([], world0)))"
  let ?f = "\<lambda>name. JDict [(''title'', JStr name)]"
  have ok: "list_all (iteration_ok env17) models"
    using env17_loop_ok by (simp add: loop_ok_def)
  have names: "map fst ?ex =
       [''Dandiset'', ''Organization'', ''Contributor'', ''ContactPoint'', ''Affiliation'',
        ''AssetsSummary'', ''AccessRequirements'', ''PropertyValue'', ''Resource'',
        ''Activity'', ''Project'', ''Session'', ''Equipment'', ''Software'', ''Agent'',
        ''Asset'', ''BareAsset'']"
    unfolding loop_keys [OF env17_loop_ok] by (simp add: succeeded_def env17_result models_def)
  have "\<forall>k \<in> set (map fst ?ex). map_of ?ex k = Some (?f k)"
  proof
    fix k assume "k \<in> set (map fst ?ex)"
    then have "k \<in> set models" "model_result env17 k = Inr (?f k)"
      unfolding names by (auto simp: models_def env17_result)
    from extract_loop_entry [OF ok this, of "[]" world0] show "map_of ?ex k = Some (?f k)" .
  qed
  with loop_keys_distinct [OF env17_loop_ok, of world0]
  have "?ex = map (\<lambda>k. (k, ?f k)) (map fst ?ex)"
    by (rule alist_determined)
  then show ?thesis
    by (simp only: names)
qed

lemma env17_completes:
  "extract_schemas env17 world0 =
     (Inr (fst (snd (extract_loop env17 models ([], world0)))), snd (extract_schemas env17 world0))"
proof -
  have "mkdir_ok env17" "file_write env17 ''all_schemas.json'' = WriteOk"
    "print_ok env17 (ExtractedCount (length (succeeded env17)))" "print_ok env17 CombinedSaved"
    "file_write env17 ''schema_summary.json'' = WriteOk"
    by (simp_all add: env17_def)
  from extract_schemas_returns [OF this(1) env17_loop_ok this(2-), of world0] show ?thesis
    by simp
qed

lemma env_combined_unwritable_result:
  assumes "name \<in> set models"
  shows "model_result env_combined_unwritable name = model_result env17 name"
proof -
  have "file_write env_combined_unwritable (schema_file name) =
        file_write env17 (schema_file name)"
    using schema_file_not_reserved(1) [OF assms]
    by (simp add: env_combined_unwritable_def env17_def)
  moreover have "export_simplified env_combined_unwritable name = export_simplified env17 name"
    by (simp add: export_simplified_def env_combined_unwritable_def)
  ultimately show ?thesis
    by (simp add: model_result_def split: sum.splits)
qed

lemma env_combined_unwritable_loop_ok: "loop_ok env_combined_unwritable"
proof -
  have "iteration_ok env_combined_unwritable name" if "name \<in> set models" for name
  proof -
    have "print_ok env_combined_unwritable = print_ok env17"
      by (simp add: env_combined_unwritable_def)
    then have "iteration_ok env_combined_unwritable name = iteration_ok env17 name"
      by (simp add: iteration_ok_def env_combined_unwritable_result [OF that] split: sum.splits)
    with env17_loop_ok that show ?thesis
      by (simp add: loop_ok_def list_all_iff)
  qed
  then show ?thesis by (simp add: loop_ok_def list_all_iff)
qed

lemma env_combined_unwritable_run:
  "extract_schemas env_combined_unwritable w =
     (Inl OSError, snd (snd (extract_loop env_combined_unwritable models ([], w))))"
  by (rule extract_schemas_combined_unopened [OF _ env_combined_unwritable_loop_ok])
     (simp_all add: env_combined_unwritable_def env17_def)


lemma env_ascii_run:
  "extract_schemas env_ascii world0 =
     (Inl PrintError,
      \<lparr>files = [''dandiset.schema.json'' \<mapsto> Written (JDict [(''title'', JStr ''Dandiset'')])],
       console = []\<rparr>)"
  by (simp add: extract_schemas_def models_def extract_one.simps try_block.simps
      export_simplified_def write_json_def print_def env_ascii_def env17_def world0_def
      schema_file_def lower_def pattern_rule_def anyOf_rule_def length_sixty)

section \<open>The claims\<close>

subsection \<open>C1: long patterns\<close>

text \<open>
  Claim C1, as the code has it. Take a mapping node that the recursion reaches and that
  is still present in the output of a successful run. If its \<^verbatim>\<open>'pattern'\<close> key holds a
  string of more than 50 characters, the output node has no \<^verbatim>\<open>'pattern'\<close> key; if it
  holds a string of 50 characters or fewer, the output node holds the same string there.
\<close>

theorem long_pattern_removed_where_walked:
  assumes "simplify_schema_for_llm inp = Inr out"
    and "walked inp p"
    and "node_at inp p = Some (JDict kvs)"
    and "map_of kvs ''pattern'' = Some (JStr s)"
    and "node_at out p = Some t"
  shows "\<exists>kvs'. t = JDict kvs' \<and>
           map_of kvs' ''pattern'' = (if 50 < length s then None else Some (JStr s))"
proof -
  have "simplify_schema_for_llm (JDict kvs) = Inr t"
    by (rule simplify_subtree [OF assms(2) assms(1) assms(3) assms(5)])
  from pattern_local [OF this assms(4)] show ?thesis
    by (auto split: if_splits)
qed

text \<open>
  An instance: the schema of one string property with a 60-character pattern; the
  node at \<^verbatim>\<open>properties/id\<close> loses the key.
\<close>

theorem long_pattern_removed_witness:
  "simplify_schema_for_llm property_doc =
     Inr (JDict [(''properties'', JDict [(''id'', JDict [(''type'', JStr ''string'')])])]) \<and>
   walked property_doc [Key ''properties'', Key ''id''] \<and>
   node_at property_doc [Key ''properties'', Key ''id''] =
     Some (JDict [(''type'', JStr ''string''), (''pattern'', JStr sixty)]) \<and>
   map_of [(''type'', JStr ''string'')] ''pattern'' = None"
proof -
  let ?out = "JDict [(''properties'', JDict [(''id'', JDict [(''type'', JStr ''string'')])])]"
  let ?p = "[Key ''properties'', Key ''id'']"
  have h1: "simplify_schema_for_llm property_doc = Inr ?out"
    by (simp add: property_doc_def pattern_rule_def anyOf_rule_def length_sixty)
  have h2: "walked property_doc ?p"
    by (simp add: property_doc_def)
  have h3: "node_at property_doc ?p = Some (JDict [(''type'', JStr ''string''), (''pattern'', JStr sixty)])"
    by (simp add: property_doc_def)
  have h4: "map_of [(''type'', JStr ''string''), (''pattern'', JStr sixty)] ''pattern'' = Some (JStr sixty)"
    by simp
  have h5: "node_at ?out ?p = Some (JDict [(''type'', JStr ''string'')])"
    by simp
  from long_pattern_removed_where_walked [OF h1 h2 h3 h4 h5] h1 h2 h3 show ?thesis
    by (simp add: length_sixty)
qed

text \<open>
  Claim C1 as it is written speaks of every mapping node of the input. A mapping that
  sits in a list inside a list is a node of the input and is never visited: here the
  transform returns the document as it was, and the node keeps its 60-character pattern.
\<close>

theorem long_pattern_kept_in_nested_list:
  "simplify_schema_for_llm nested_pattern_doc = Inr nested_pattern_doc \<and>
   node_at nested_pattern_doc [Key ''examples'', Idx 0, Idx 0] =
     Some (JDict [(''pattern'', JStr sixty)]) \<and>
   50 < length sixty"
  by (simp add: nested_pattern_doc_def length_sixty pattern_rule_def anyOf_rule_def)

subsection \<open>C2: long unions\<close>

text \<open>
  Claim C2, as the code has it. Take a mapping node that the recursion reaches and that
  is still present in the output of a successful run, whose \<^verbatim>\<open>'anyOf'\<close> key holds a list.
  With more than 5 alternatives the output list has exactly 3 entries, with 5 or fewer
  it has as many as the input list; in both cases entry \<open>i\<close> of the output is entry \<open>i\<close>
  of the input, recursively simplified when it is a mapping and itself otherwise.
\<close>

theorem anyOf_truncated_where_walked:
  assumes "simplify_schema_for_llm inp = Inr out"
    and "walked inp p"
    and "node_at inp p = Some (JDict kvs)"
    and "map_of kvs ''anyOf'' = Some (JList xs)"
    and "node_at out p = Some t"
  shows "\<exists>kvs' ys. t = JDict kvs' \<and> map_of kvs' ''anyOf'' = Some (JList ys) \<and>
           length ys = (if 5 < length xs then 3 else length xs) \<and>
           (\<forall>i < length ys. simplify_item (xs ! i) = Inr (ys ! i))"
proof -
  have "simplify_schema_for_llm (JDict kvs) = Inr t"
    by (rule simplify_subtree [OF assms(2) assms(1) assms(3) assms(5)])
  from anyOf_local [OF this assms(4)] obtain kvs' ys where
    r: "t = JDict kvs'" "map_of kvs' ''anyOf'' = Some (JList ys)"
      "simplify_items (if 5 < length xs then take 3 xs else xs) = Inr ys"
    by blast
  let ?zs = "if 5 < length xs then take 3 xs else xs"
  have len: "length ys = length ?zs"
    using r(3) by (rule simplify_items_length)
  have "simplify_item (xs ! i) = Inr (ys ! i)" if "i < length ys" for i
  proof -
    from that len have i: "i < length ?zs" by simp
    then have "?zs ! i = xs ! i" by (simp split: if_splits)
    with simplify_items_nth [OF r(3) i] show ?thesis by simp
  qed
  with r(1,2) len show ?thesis by (auto split: if_splits)
qed

text \<open>
  An instance: six alternatives under \<^verbatim>\<open>items\<close>, the first a mapping with a long pattern.
  Three are left, and the first of them has been simplified.
\<close>

theorem anyOf_truncated_witness:
  "simplify_schema_for_llm union_doc =
     Inr (JDict [(''items'', JDict [(''anyOf'', JList [JDict [], JInt 2, JInt 3])])]) \<and>
   walked union_doc [Key ''items''] \<and>
   simplify_item (JDict [(''pattern'', JStr sixty)]) = Inr (JDict [])"
proof -
  let ?xs = "[JDict [(''pattern'', JStr sixty)], JInt 2, JInt 3, JInt 4, JInt 5, JInt 6]"
  let ?out = "JDict [(''items'', JDict [(''anyOf'', JList [JDict [], JInt 2, JInt 3])])]"
  have h1: "simplify_schema_for_llm union_doc = Inr ?out"
    by (simp add: union_doc_def pattern_rule_def anyOf_rule_def length_sixty)
  have h2: "walked union_doc [Key ''items'']"
    by (simp add: union_doc_def)
  have h3: "node_at union_doc [Key ''items''] = Some (JDict [(''anyOf'', JList ?xs)])"
    by (simp add: union_doc_def)
  have h4: "map_of [(''anyOf'', JList ?xs)] ''anyOf'' = Some (JList ?xs)"
    by simp
  have h5: "node_at ?out [Key ''items''] = Some (JDict [(''anyOf'', JList [JDict [], JInt 2, JInt 3])])"
    by simp
  from anyOf_truncated_where_walked [OF h1 h2 h3 h4 h5] h1 h2 show ?thesis
    by auto
qed

text \<open>
  Claim C2 as it is written fails at a mapping inside a list inside a list: its seven
  alternatives are all still there in the output.
\<close>

theorem anyOf_kept_in_nested_list:
  "simplify_schema_for_llm nested_union_doc = Inr nested_union_doc \<and>
   node_at nested_union_doc [Key ''examples'', Idx 0, Idx 0] =
     Some (JDict [(''anyOf'', JList [JInt 1, JInt 2, JInt 3, JInt 4, JInt 5, JInt 6, JInt 7])]) \<and>
   length [JInt 1, JInt 2, JInt 3, JInt 4, JInt 5, JInt 6, JInt 7] = 7"
  by (simp add: nested_union_doc_def pattern_rule_def anyOf_rule_def)

subsection \<open>C3: idempotence\<close>

text \<open>
  Claim C3: the transform is idempotent. For every input, applying it twice gives what
  applying it once gives: the same document, or the same exception.
\<close>

theorem simplify_idempotent:
  "simplify_twice schema = simplify_schema_for_llm schema"
  by (cases "simplify_schema_for_llm schema") (simp_all add: simplify_twice_def simplify_fixpoint(1))

text \<open>An instance of C3.\<close>

theorem simplify_idempotent_witness:
  "simplify_twice union_doc =
     Inr (JDict [(''items'', JDict [(''anyOf'', JList [JDict [], JInt 2, JInt 3])])])"
  using simplify_idempotent [of union_doc]
  by (simp add: union_doc_def pattern_rule_def anyOf_rule_def length_sixty)

subsection \<open>C4: the scenario of the specification\<close>

text \<open>
  Claim C4, as the code has it. On \<^verbatim>\<open>{"pattern": p, "anyOf": [s1, ..., s7]}\<close> with \<open>p\<close> of
  60 characters the pattern key is removed and the union is cut to its first three
  entries, and then the loop of lines 55-59 simplifies each of the three that is a
  mapping: the result is \<^verbatim>\<open>{"anyOf": [s1', s2', s3']}\<close> with \<open>si'\<close> the simplified \<open>si\<close>,
  or the exception that simplifying one of them raises. \<open>s4\<close> to \<open>s7\<close> are never looked at.
\<close>

theorem scenario_pattern_and_union:
  assumes "length p = 60"
  shows "simplify_schema_for_llm
           (JDict [(''pattern'', JStr p), (''anyOf'', JList [s1, s2, s3, s4, s5, s6, s7])]) =
         (case simplify_items [s1, s2, s3] of
            Inl e \<Rightarrow> Inl e
          | Inr ys \<Rightarrow> Inr (JDict [(''anyOf'', JList ys)]))"
  using assms
  by (simp add: pattern_rule_def anyOf_rule_def split: sum.splits)

text \<open>An instance of C4, with a first alternative that the recursion changes.\<close>

theorem scenario_witness:
  "length sixty = 60 \<and>
   simplify_schema_for_llm
     (JDict [(''pattern'', JStr sixty),
             (''anyOf'', JList [JDict [(''pattern'', JStr sixty)], JStr ''b'', JInt 3, JInt 4,
                                JInt 5, JInt 6, JInt 7])]) =
   Inr (JDict [(''anyOf'', JList [JDict [], JStr ''b'', JInt 3])])"
  using scenario_pattern_and_union [OF length_sixty,
      of "JDict [(''pattern'', JStr sixty)]" "JStr ''b''" "JInt 3" "JInt 4" "JInt 5" "JInt 6" "JInt 7"]
  by (simp add: length_sixty pattern_rule_def anyOf_rule_def)

text \<open>
  Claim C4 as it is written has the three entries unchanged. On the same input the
  result is not \<^verbatim>\<open>{"anyOf": [s1, s2, s3]}\<close>: \<open>s1\<close> has lost its own long pattern.
\<close>

theorem scenario_entries_change:
  "length sixty = 60 \<and>
   simplify_schema_for_llm
     (JDict [(''pattern'', JStr sixty),
             (''anyOf'', JList [JDict [(''pattern'', JStr sixty)], JStr ''b'', JInt 3, JInt 4,
                                JInt 5, JInt 6, JInt 7])]) \<noteq>
   Inr (JDict [(''anyOf'', JList [JDict [(''pattern'', JStr sixty)], JStr ''b'', JInt 3])])"
  by (simp add: length_sixty pattern_rule_def anyOf_rule_def)

subsection \<open>C5: a model that fails is skipped\<close>




subsection \<open>C6: an individual file equals the entry of the combined file\<close>

text \<open>
  Claim C6, as the code has it. Let the output directory be created, let no iteration
  of the loop raise and let \<^verbatim>\<open>all_schemas.json\<close> be written. Then every name that the
  combined file holds has its individual file \<^verbatim>\<open><lowercased name>.schema.json\<close> on
  disk, and that file holds the schema that the combined file holds under the name.
  The names are distinct: they are the models whose export, simplification and write
  succeeded, in registry order.
\<close>

theorem individual_file_equals_combined_entry:
  assumes "mkdir_ok env"
    and "loop_ok env"
    and "file_write env ''all_schemas.json'' = WriteOk"
  shows "\<exists>ex. files (snd (extract_schemas env w)) ''all_schemas.json'' = Some (Written (JDict ex)) \<and>
           distinct (map fst ex) \<and>
           map fst ex = filter (\<lambda>m. \<not> isl (model_result env m)) models \<and>
           (\<forall>name schema. map_of ex name = Some schema \<longrightarrow>
              files (snd (extract_schemas env w)) (schema_file name) = Some (Written schema))"
proof -
  let ?loop = "extract_loop env models ([], w)"
  let ?ex = "fst (snd ?loop)"
  let ?w' = "snd (extract_schemas env w)"
  note world = extract_schemas_world [OF assms(1,2), where w = w]
  from assms(2) have ok: "list_all (iteration_ok env) models"
    by (simp add: loop_ok_def)
  have "files ?w' (schema_file name) = Some (Written schema)"
    if "map_of ?ex name = Some schema" for name schema
  proof -
    from loop_entry [OF assms(2) that] have m: "name \<in> set models" "model_result env name = Inr schema"
      by simp_all
    then have "schema_file name \<noteq> ''all_schemas.json''" "schema_file name \<noteq> ''schema_summary.json''"
      using schema_file_not_reserved by blast+
    then have "files ?w' (schema_file name) = files (snd (snd ?loop)) (schema_file name)"
      by (rule world(2))
    with extract_loop_file [OF ok schema_files_distinct m, of "[]" w] show ?thesis
      by simp
  qed
  moreover have "map fst ?ex = filter (\<lambda>m. \<not> isl (model_result env m)) models"
    using loop_keys [OF assms(2), of w] by (simp add: succeeded_def)
  ultimately show ?thesis
    using world(3) [OF assms(3)] loop_keys_distinct [OF assms(2), of w]
    by blast
qed

text \<open>
  An instance of C6: the combined file of the run in which \<^verbatim>\<open>Person\<close> fails, and the
  files of \<^verbatim>\<open>Asset\<close> and \<^verbatim>\<open>BareAsset\<close>.
\<close>

theorem individual_file_witness:
  "files (snd (extract_schemas env17 world0)) ''all_schemas.json'' =
     Some (Written (JDict (map (\<lambda>name. (name, JDict [(''title'', JStr name)]))
            [''Dandiset'', ''Organization'', ''Contributor'', ''ContactPoint'', ''Affiliation'',
             ''AssetsSummary'', ''AccessRequirements'', ''PropertyValue'', ''Resource'',
             ''Activity'', ''Project'', ''Session'', ''Equipment'', ''Software'', ''Agent'',
             ''Asset'', ''BareAsset'']))) \<and>
   files (snd (extract_schemas env17 world0)) ''asset.schema.json'' =
     Some (Written (JDict [(''title'', JStr ''Asset'')])) \<and>
   files (snd (extract_schemas env17 world0)) ''bareasset.schema.json'' =
     Some (Written (JDict [(''title'', JStr ''BareAsset'')]))"
proof -
  let ?names = "[''Dandiset'', ''Organization'', ''Contributor'', ''ContactPoint'',
     ''Affiliation'', ''AssetsSummary'', ''AccessRequirements'', ''PropertyValue'', ''Resource'',
     ''Activity'', ''Project'', ''Session'', ''Equipment'', ''Software'', ''Agent'',
     ''Asset'', ''BareAsset'']"
  let ?f = "\<lambda>name. JDict [(''title'', JStr name)]"
  let ?w' = "snd (extract_schemas env17 world0)"
  have h1: "mkdir_ok env17" and h3: "file_write env17 ''all_schemas.json'' = WriteOk"
    by (simp_all add: env17_def)
  from individual_file_equals_combined_entry [OF h1 env17_loop_ok h3, of world0] obtain ex where
    c: "files ?w' ''all_schemas.json'' = Some (Written (JDict ex)) \<and>
        distinct (map fst ex) \<and>
        map fst ex = filter (\<lambda>m. \<not> isl (model_result env17 m)) models \<and>
        (\<forall>name schema. map_of ex name = Some schema \<longrightarrow>
           files ?w' (schema_file name) = Some (Written schema))"
    by (elim exE) (rule that)
  note all = c [THEN conjunct1]
    and d = c [THEN conjunct2, THEN conjunct1]
    and keys = c [THEN conjunct2, THEN conjunct2, THEN conjunct1]
    and each = c [THEN conjunct2, THEN conjunct2, THEN conjunct2]
  from keys have names: "map fst ex = ?names"
    by (simp add: env17_result models_def)
  have ok: "list_all (iteration_ok env17) models"
    using env17_loop_ok by (simp add: loop_ok_def)
  from all extract_schemas_world(3) [OF h1 env17_loop_ok h3, of world0]
  have loop: "ex = fst (snd (extract_loop env17 models ([], world0)))"
    by simp
  have "\<forall>k \<in> set (map fst ex). map_of ex k = Some (?f k)"
  proof
    fix k assume "k \<in> set (map fst ex)"
    then have "k \<in> set models" "model_result env17 k = Inr (?f k)"
      unfolding names by (auto simp: models_def env17_result)
    from extract_loop_entry [OF ok this, of "[]" world0] show "map_of ex k = Some (?f k)"
      by (simp add: loop)
  qed
  with d have "ex = map (\<lambda>k. (k, ?f k)) (map fst ex)"
    by (rule alist_determined)
  then have ex: "ex = map (\<lambda>k. (k, ?f k)) ?names"
    by (simp only: names)
  have "map_of ex ''Asset'' = Some (?f ''Asset'')" "map_of ex ''BareAsset'' = Some (?f ''BareAsset'')"
    unfolding ex by simp_all
  with each have "files ?w' (schema_file ''Asset'') = Some (Written (?f ''Asset''))"
    "files ?w' (schema_file ''BareAsset'') = Some (Written (?f ''BareAsset''))"
    by blast+
  then have "files ?w' ''asset.schema.json'' = Some (Written (?f ''Asset''))"
    "files ?w' ''bareasset.schema.json'' = Some (Written (?f ''BareAsset''))"
    by (simp_all add: schema_file_def lower_def)
  with all show ?thesis
    by (simp only: ex simp_thms)
qed

text \<open>
  Claim C6 as it is written does not hold in every run. When \<^verbatim>\<open>all_schemas.json\<close>
  cannot be opened, line 117 raises after the loop has written the file of \<^verbatim>\<open>Asset\<close>:
  the combined file is the one of an earlier run and holds another entry for
  \<^verbatim>\<open>Asset\<close>. And on a standard output that cannot encode U+2713 and U+2717 the file
  of \<^verbatim>\<open>Dandiset\<close> is written, the prints of lines 109 and 112 raise, and the run ends
  with no combined file at all.
\<close>

theorem combined_file_can_disagree:
  "model_result env_combined_unwritable ''Asset'' = Inr (JDict [(''title'', JStr ''Asset'')]) \<and>
   files (snd (extract_schemas env_combined_unwritable world_old)) ''asset.schema.json'' =
     Some (Written (JDict [(''title'', JStr ''Asset'')])) \<and>
   files (snd (extract_schemas env_combined_unwritable world_old)) ''all_schemas.json'' =
     Some (Written (JDict [(''Person'', JDict []), (''Asset'', JDict [])])) \<and>
   model_result env_ascii ''Dandiset'' = Inr (JDict [(''title'', JStr ''Dandiset'')]) \<and>
   files (snd (extract_schemas env_ascii world0)) ''dandiset.schema.json'' =
     Some (Written (JDict [(''title'', JStr ''Dandiset'')])) \<and>
   files (snd (extract_schemas env_ascii world0)) ''all_schemas.json'' = None"
proof -
  have a: "''Asset'' \<in> set models"
    by (simp add: models_def)
  have r: "model_result env_combined_unwritable ''Asset'' = Inr (JDict [(''title'', JStr ''Asset'')])"
    by (simp add: env_combined_unwritable_result [OF a] env17_result)
  have ok: "list_all (iteration_ok env_combined_unwritable) models"
    using env_combined_unwritable_loop_ok by (simp add: loop_ok_def)
  have f: "schema_file ''Asset'' = ''asset.schema.json''"
    by (simp add: schema_file_def lower_def)
  have "files (snd (extract_schemas env_combined_unwritable world_old)) ''asset.schema.json'' =
     Some (Written (JDict [(''title'', JStr ''Asset'')]))"
    using extract_loop_file [OF ok schema_files_distinct a r, of "[]" world_old]
    by (simp add: env_combined_unwritable_run f)
  moreover have "files (snd (extract_schemas env_combined_unwritable world_old)) ''all_schemas.json'' =
      Some (Written (JDict [(''Person'', JDict []), (''Asset'', JDict [])]))"
    using extract_loop_other_file [OF combined_not_schema_file, of env_combined_unwritable "[]" world_old]
    by (simp add: env_combined_unwritable_run world_old_def)
  moreover have "model_result env_ascii ''Dandiset'' = Inr (JDict [(''title'', JStr ''Dandiset'')])"
    by (simp add: model_result_def export_simplified_def env_ascii_def env17_def
        pattern_rule_def anyOf_rule_def length_sixty)
  ultimately show ?thesis
    using r by (simp add: env_ascii_run)
qed

subsection \<open>C7: the summary\<close>

text \<open>
  Claim C7. When \<open>extract_schemas\<close> returns, \<^verbatim>\<open>all_schemas.json\<close> holds the result set
  and the summary holds: under \<^verbatim>\<open>total_schemas\<close> the number of its keys, under
  \<^verbatim>\<open>schema_names\<close> its keys, which are distinct and in registry order, and under
  \<^verbatim>\<open>file_locations\<close> each key with the string \<^verbatim>\<open><lowercased name>.schema.json\<close>.
\<close>

theorem summary_describes_combined:
  assumes "extract_schemas env w = (Inr ex, w')"
  shows "files w' ''all_schemas.json'' = Some (Written (JDict ex)) \<and>
         files w' ''schema_summary.json'' =
           Some (Written (JDict
             [(''extracted_at'', JStr (now_isoformat env)),
              (''total_schemas'', JInt (int (length (map fst ex)))),
              (''schema_names'', JList (map JStr (map fst ex))),
              (''file_locations'',
                 JDict (map (\<lambda>name. (name, JStr (lower name @ ''.schema.json''))) (map fst ex)))])) \<and>
         distinct (map fst ex) \<and>
         map fst ex = filter (\<lambda>name. name \<in> fst ` set ex) models"
proof -
  let ?loop = "extract_loop env models ([], w)"
  from extract_schemas_returned [OF assms(1)] have ok: "mkdir_ok env" "loop_ok env"
    "file_write env ''all_schemas.json'' = WriteOk"
    "print_ok env (ExtractedCount (length (succeeded env)))"
    "print_ok env CombinedSaved"
    "file_write env ''schema_summary.json'' = WriteOk"
    by simp_all
  from extract_schemas_returns [OF ok, of w] assms(1) have ex: "ex = fst (snd ?loop)"
    and fs: "files w' = (files (snd (snd ?loop)))
                (''all_schemas.json'' \<mapsto> Written (JDict ex),
                 ''schema_summary.json'' \<mapsto> Written (summary env ex))"
    by auto
  have d: "distinct (map fst ex)"
    unfolding ex using ok(2) by (rule loop_keys_distinct)
  have "map fst ex = filter (\<lambda>name. \<not> isl (model_result env name)) models"
    unfolding ex using loop_keys [OF ok(2), of w] by (simp add: succeeded_def)
  then have order: "map fst ex = filter (\<lambda>name. name \<in> fst ` set ex) models"
    using filter_by_membership [of "\<lambda>name. \<not> isl (model_result env name)" models]
    by (simp only: set_map [symmetric])
  have "summary env ex = JDict
             [(''extracted_at'', JStr (now_isoformat env)),
              (''total_schemas'', JInt (int (length (map fst ex)))),
              (''schema_names'', JList (map JStr (map fst ex))),
              (''file_locations'',
                 JDict (map (\<lambda>name. (name, JStr (lower name @ ''.schema.json''))) (map fst ex)))]"
    by (simp add: summary_def schema_file_def case_prod_beta comp_def)
  with fs d order show ?thesis by simp
qed

text \<open>
  An instance of C7: the combined file and the summary of the run in which the export
  of \<^verbatim>\<open>Person\<close> raises, with 17 keys, 17 names and 17 lower-cased file names.
\<close>

theorem summary_witness:
  "files (snd (extract_schemas env17 world0)) ''all_schemas.json'' =
     Some (Written (JDict
       [(''Dandiset'', JDict [(''title'', JStr ''Dandiset'')]),
        (''Organization'', JDict [(''title'', JStr ''Organization'')]),
        (''Contributor'', JDict [(''title'', JStr ''Contributor'')]),
        (''ContactPoint'', JDict [(''title'', JStr ''ContactPoint'')]),
        (''Affiliation'', JDict [(''title'', JStr ''Affiliation'')]),
        (''AssetsSummary'', JDict [(''title'', JStr ''AssetsSummary'')]),
        (''AccessRequirements'', JDict [(''title'', JStr ''AccessRequirements'')]),
        (''PropertyValue'', JDict [(''title'', JStr ''PropertyValue'')]),
        (''Resource'', JDict [(''title'', JStr ''Resource'')]),
        (''Activity'', JDict [(''title'', JStr ''Activity'')]),
        (''Project'', JDict [(''title'', JStr ''Project'')]),
        (''Session'', JDict [(''title'', JStr ''Session'')]),
        (''Equipment'', JDict [(''title'', JStr ''Equipment'')]),
        (''Software'', JDict [(''title'', JStr ''Software'')]),
        (''Agent'', JDict [(''title'', JStr ''Agent'')]),
        (''Asset'', JDict [(''title'', JStr ''Asset'')]),
        (''BareAsset'', JDict [(''title'', JStr ''BareAsset'')])])) \<and>
   files (snd (extract_schemas env17 world0)) ''schema_summary.json'' =
     Some (Written (JDict
       [(''extracted_at'', JStr ''2024-05-01T12:00:00''),
        (''total_schemas'', JInt 17),
        (''schema_names'',
           JList [JStr ''Dandiset'', JStr ''Organization'', JStr ''Contributor'',
                  JStr ''ContactPoint'', JStr ''Affiliation'', JStr ''AssetsSummary'',
                  JStr ''AccessRequirements'', JStr ''PropertyValue'', JStr ''Resource'',
                  JStr ''Activity'', JStr ''Project'', JStr ''Session'', JStr ''Equipment'',
                  JStr ''Software'', JStr ''Agent'', JStr ''Asset'', JStr ''BareAsset'']),
        (''file_locations'',
           JDict [(''Dandiset'', JStr ''dandiset.schema.json''),
                  (''Organization'', JStr ''organization.schema.json''),
                  (''Contributor'', JStr ''contributor.schema.json''),
                  (''ContactPoint'', JStr ''contactpoint.schema.json''),
                  (''Affiliation'', JStr ''affiliation.schema.json''),
                  (''AssetsSummary'', JStr ''assetssummary.schema.json''),
                  (''AccessRequirements'', JStr ''accessrequirements.schema.json''),
                  (''PropertyValue'', JStr ''propertyvalue.schema.json''),
                  (''Resource'', JStr ''resource.schema.json''),
                  (''Activity'', JStr ''activity.schema.json''),
                  (''Project'', JStr ''project.schema.json''),
                  (''Session'', JStr ''session.schema.json''),
                  (''Equipment'', JStr ''equipment.schema.json''),
                  (''Software'', JStr ''software.schema.json''),
                  (''Agent'', JStr ''agent.schema.json''),
                  (''Asset'', JStr ''asset.schema.json''),
                  (''BareAsset'', JStr ''bareasset.schema.json'')])]))"
proof -
  let ?ex = "fst (snd (extract_loop env17 models ([], world0)))"
  let ?w' = "snd (extract_schemas env17 world0)"
  have t: "now_isoformat env17 = ''2024-05-01T12:00:00''"
    by (simp add: env17_def)
  note c = summary_describes_combined [OF env17_completes]
  have a: "files ?w' ''all_schemas.json'' = Some (Written (JDict ?ex))"
    by (rule c [THEN conjunct1])
  have s: "files ?w' ''schema_summary.json'' =
           Some (Written (JDict
             [(''extracted_at'', JStr (now_isoformat env17)),
              (''total_schemas'', JInt (int (length (map fst ?ex)))),
              (''schema_names'', JList (map JStr (map fst ?ex))),
              (''file_locations'',
                 JDict (map (\<lambda>name. (name, JStr (lower name @ ''.schema.json''))) (map fst ?ex)))]))"
    by (rule c [THEN conjunct2, THEN conjunct1])
  from a s show ?thesis
    unfolding env17_extracted t by (simp add: lower_def)
qed

subsection \<open>C8: the exit status\<close>




subsection \<open>C9: oneOf lists\<close>

text \<open>
  Claim C9, as the code has it. No \<^verbatim>\<open>'oneOf'\<close> list is ever shortened: at every mapping
  node of the input that is still present in the output of a successful run, a list
  under \<^verbatim>\<open>'oneOf'\<close> has the same length in the output, however many alternatives it
  has. Where the recursion reaches the node, each element is the input's element,
  recursively simplified when it is a mapping; where it does not, the list is the same.
\<close>

theorem oneOf_never_truncated:
  assumes "simplify_schema_for_llm inp = Inr out"
    and "node_at inp p = Some (JDict kvs)"
    and "map_of kvs ''oneOf'' = Some (JList xs)"
    and "node_at out p = Some t"
  shows "\<exists>kvs' ys. t = JDict kvs' \<and> map_of kvs' ''oneOf'' = Some (JList ys) \<and>
           length ys = length xs \<and>
           (if walked inp p
            then \<forall>i < length xs. simplify_item (xs ! i) = Inr (ys ! i)
            else ys = xs)"
proof (cases "walked inp p")
  case True
  have "simplify_schema_for_llm (JDict kvs) = Inr t"
    by (rule simplify_subtree [OF True assms(1) assms(2) assms(4)])
  from other_key_local [OF this assms(3)] obtain kvs' v' where
    r: "t = JDict kvs'" "map_of kvs' ''oneOf'' = Some v'" "simplify_value (JList xs) = Inr v'"
    by auto
  from r(3) obtain ys where ys: "v' = JList ys" "simplify_items xs = Inr ys"
    by (auto split: sum.splits)
  from ys(2) have "length ys = length xs" "\<forall>i < length xs. simplify_item (xs ! i) = Inr (ys ! i)"
    by (simp_all add: simplify_items_length simplify_items_nth)
  with True r(1,2) ys(1) show ?thesis by simp
next
  case False
  have "t = JDict kvs"
    by (rule unwalked_unchanged [OF False assms(1) assms(2) _ assms(4)]) simp
  with False assms(3) show ?thesis by simp
qed

text \<open>An instance of C9: seven alternatives stay seven, the first one simplified.\<close>

theorem oneOf_never_truncated_witness:
  "simplify_schema_for_llm oneOf_doc =
     Inr (JDict [(''oneOf'', JList [JDict [], JInt 2, JInt 3, JInt 4, JInt 5, JInt 6, JInt 7])]) \<and>
   walked oneOf_doc [] \<and>
   length [JDict [], JInt 2, JInt 3, JInt 4, JInt 5, JInt 6, JInt 7] = 7 \<and>
   simplify_item (JDict [(''pattern'', JStr sixty)]) = Inr (JDict [])"
proof -
  let ?xs = "[JDict [(''pattern'', JStr sixty)], JInt 2, JInt 3, JInt 4, JInt 5, JInt 6, JInt 7]"
  let ?ys = "[JDict [], JInt 2, JInt 3, JInt 4, JInt 5, JInt 6, JInt 7]"
  have h1: "simplify_schema_for_llm oneOf_doc = Inr (JDict [(''oneOf'', JList ?ys)])"
    by (simp add: oneOf_doc_def pattern_rule_def anyOf_rule_def length_sixty)
  have h2: "node_at oneOf_doc [] = Some (JDict [(''oneOf'', JList ?xs)])"
    by (simp add: oneOf_doc_def)
  have h3: "map_of [(''oneOf'', JList ?xs)] ''oneOf'' = Some (JList ?xs)"
    by simp
  have h4: "node_at (JDict [(''oneOf'', JList ?ys)]) [] = Some (JDict [(''oneOf'', JList ?ys)])"
    by simp
  from oneOf_never_truncated [OF h1 h2 h3 h4] h1 show ?thesis
    by auto
qed

text \<open>
  Claim C9 as it is written has each mapping element recursively simplified at every
  mapping node. Under a list inside a list the element that the transform would empty
  is returned with its long pattern.
\<close>

theorem oneOf_elements_kept_in_nested_list:
  "simplify_schema_for_llm nested_oneOf_doc = Inr nested_oneOf_doc \<and>
   node_at nested_oneOf_doc [Key ''examples'', Idx 0, Idx 0] =
     Some (JDict [(''oneOf'', JList [JDict [(''pattern'', JStr sixty)]])]) \<and>
   simplify_item (JDict [(''pattern'', JStr sixty)]) = Inr (JDict [])"
  by (simp add: nested_oneOf_doc_def length_sixty pattern_rule_def anyOf_rule_def)

subsection \<open>C10: values the rules cannot handle\<close>

text \<open>
  Claim C10, as the code has it. A \<^verbatim>\<open>'pattern'\<close> value without a length at the root
  mapping raises a TypeError. A \<^verbatim>\<open>'pattern'\<close> value without a length at any mapping
  that the run reaches makes the run raise: a TypeError, or a \<open>SliceError\<close> when an
  \<^verbatim>\<open>'anyOf'\<close> that holds a mapping of more than 5 entries is met before. At a reached
  mapping of a run that raises nothing, a \<^verbatim>\<open>'pattern'\<close> value with a length over 50 is
  deleted, whether it is a string, a list or a mapping. The transform raises nothing
  when every \<^verbatim>\<open>'pattern'\<close> value of the input is a string and every \<^verbatim>\<open>'anyOf'\<close> value
  is a list.
\<close>

theorem pattern_values_and_totality:
  "(map_of kvs0 ''pattern'' = Some v0 \<and> py_len v0 = None \<longrightarrow>
      simplify_schema_for_llm (JDict kvs0) = Inl TypeError) \<and>
   (reached inp p \<and> node_at inp p = Some (JDict kvs) \<and>
    map_of kvs ''pattern'' = Some v \<and> py_len v = None \<longrightarrow>
      (\<exists>e. simplify_schema_for_llm inp = Inl e \<and> (e = TypeError \<or> e = SliceError))) \<and>
   (simplify_schema_for_llm inp' = Inr out \<and> reached inp' p' \<and>
    node_at inp' p' = Some (JDict kvs') \<and> map_of kvs' ''pattern'' = Some v' \<and>
    py_len v' = Some n \<and> 50 < n \<longrightarrow>
      (\<exists>kvs''. node_at out p' = Some (JDict kvs'') \<and> map_of kvs'' ''pattern'' = None)) \<and>
   (pattern_values_are_strings s \<and> anyOf_values_are_lists s \<longrightarrow>
      (\<exists>r. simplify_schema_for_llm s = Inr r))"
proof (intro conjI impI)
  assume "map_of kvs0 ''pattern'' = Some v0 \<and> py_len v0 = None"
  then show "simplify_schema_for_llm (JDict kvs0) = Inl TypeError"
    using unsized_pattern_raises by blast
next
  assume a: "reached inp p \<and> node_at inp p = Some (JDict kvs) \<and>
    map_of kvs ''pattern'' = Some v \<and> py_len v = None"
  then have node: "simplify_schema_for_llm (JDict kvs) = Inl TypeError"
    using unsized_pattern_raises by blast
  show "\<exists>e. simplify_schema_for_llm inp = Inl e \<and> (e = TypeError \<or> e = SliceError)"
  proof (cases "simplify_schema_for_llm inp")
    case (Inl e)
    with simplify_errors(1) show ?thesis by blast
  next
    case (Inr out)
    from a reached_present [OF _ Inr] obtain t where t: "node_at out p = Some t"
      by blast
    from a have "walked inp p" by (simp add: reached_walked)
    from simplify_subtree [OF this Inr _ t] a node show ?thesis by simp
  qed
next
  assume a: "simplify_schema_for_llm inp' = Inr out \<and> reached inp' p' \<and>
    node_at inp' p' = Some (JDict kvs') \<and> map_of kvs' ''pattern'' = Some v' \<and>
    py_len v' = Some n \<and> 50 < n"
  from a reached_present obtain t where t: "node_at out p' = Some t"
    by blast
  from a have "walked inp' p'" by (simp add: reached_walked)
  from simplify_subtree [OF this _ _ t] a
  have "simplify_schema_for_llm (JDict kvs') = Inr t" by blast
  from pattern_local [OF this] a t
  show "\<exists>kvs''. node_at out p' = Some (JDict kvs'') \<and> map_of kvs'' ''pattern'' = None"
    by (auto split: if_splits)
next
  assume "pattern_values_are_strings s \<and> anyOf_values_are_lists s"
  then show "\<exists>r. simplify_schema_for_llm s = Inr r"
    using typed_total(1) by (simp add: typed_def)
qed

text \<open>
  An instance of C10: a number under \<^verbatim>\<open>'pattern'\<close> at the root and at a property, a
  list of 100 elements under \<^verbatim>\<open>'pattern'\<close>, and a typed document.
\<close>

theorem pattern_values_and_totality_witness:
  "simplify_schema_for_llm (JDict [(''pattern'', JInt 5)]) = Inl TypeError \<and>
   reached number_pattern_doc [Key ''properties'', Key ''id''] \<and>
   node_at number_pattern_doc [Key ''properties'', Key ''id''] = Some (JDict [(''pattern'', JInt 5)]) \<and>
   simplify_schema_for_llm number_pattern_doc = Inl TypeError \<and>
   py_len hundred_items = Some 100 \<and>
   simplify_schema_for_llm
     (JDict [(''items'', JDict [(''pattern'', hundred_items), (''type'', JStr ''string'')])]) =
     Inr (JDict [(''items'', JDict [(''type'', JStr ''string'')])]) \<and>
   pattern_values_are_strings union_doc \<and> anyOf_values_are_lists union_doc \<and>
   simplify_schema_for_llm union_doc =
     Inr (JDict [(''items'', JDict [(''anyOf'', JList [JDict [], JInt 2, JInt 3])])])"
proof -
  let ?node = "[(''pattern'', hundred_items), (''type'', JStr ''string'')]"
  let ?inp = "JDict [(''items'', JDict ?node)]"
  let ?out = "JDict [(''items'', JDict [(''type'', JStr ''string'')])]"
  let ?p = "[Key ''properties'', Key ''id'']"
  have len: "py_len hundred_items = Some 100"
    by (simp add: hundred_items_def)
  have h1: "map_of [(''pattern'', JInt 5)] ''pattern'' = Some (JInt 5) \<and> py_len (JInt 5) = None"
    by simp
  have h2: "reached number_pattern_doc ?p \<and>
      node_at number_pattern_doc ?p = Some (JDict [(''pattern'', JInt 5)]) \<and>
      map_of [(''pattern'', JInt 5)] ''pattern'' = Some (JInt 5) \<and> py_len (JInt 5) = None"
    by (simp add: number_pattern_doc_def deleted_def)
  have raise: "simplify_schema_for_llm number_pattern_doc = Inl TypeError"
    by (simp add: number_pattern_doc_def pattern_rule_def anyOf_rule_def)
  have run: "simplify_schema_for_llm ?inp = Inr ?out"
    using len by (simp add: pattern_rule_def anyOf_rule_def)
  have h3: "simplify_schema_for_llm ?inp = Inr ?out \<and> reached ?inp [Key ''items''] \<and>
      node_at ?inp [Key ''items''] = Some (JDict ?node) \<and>
      map_of ?node ''pattern'' = Some hundred_items \<and>
      py_len hundred_items = Some 100 \<and> 50 < (100::nat)"
    using run len by (simp add: deleted_def)
  have h4: "pattern_values_are_strings union_doc \<and> anyOf_values_are_lists union_doc"
    by (simp add: union_doc_def)
  have u: "simplify_schema_for_llm union_doc =
     Inr (JDict [(''items'', JDict [(''anyOf'', JList [JDict [], JInt 2, JInt 3])])])"
    by (simp add: union_doc_def pattern_rule_def anyOf_rule_def length_sixty)
  note c = pattern_values_and_totality [of "[(''pattern'', JInt 5)]" "JInt 5"
      number_pattern_doc ?p "[(''pattern'', JInt 5)]" "JInt 5"
      ?inp ?out "[Key ''items'']" ?node hundred_items 100 union_doc]
  from c [THEN conjunct1, THEN mp, OF h1]
  have a: "simplify_schema_for_llm (JDict [(''pattern'', JInt 5)]) = Inl TypeError" .
  from c [THEN conjunct2, THEN conjunct1, THEN mp, OF h2] raise
  have b: "simplify_schema_for_llm number_pattern_doc = Inl TypeError" by simp
  from a b h2 len run h4 u show ?thesis by simp
qed

text \<open>
  Claim C10 as it is written fails in three ways. The mapping \<^verbatim>\<open>{"anyOf": null}\<close> has
  no \<^verbatim>\<open>'pattern'\<close> at all and raises a TypeError at line 50, so strings under
  \<^verbatim>\<open>'pattern'\<close> do not make the transform total. A mapping in a list that is itself a
  list element is not visited: its \<^verbatim>\<open>'pattern'\<close> holds a number and the run raises
  nothing. And a reached mapping whose \<^verbatim>\<open>'pattern'\<close> holds a number is not what stops
  the run when the root's \<^verbatim>\<open>'anyOf'\<close> holds a mapping of six entries: line 52 slices
  that mapping first, which raises a TypeError before Python 3.12 and a KeyError from
  3.12 on.
\<close>

theorem raising_claims_fail:
  "pattern_values_are_strings (JDict [(''anyOf'', JNull)]) \<and>
   simplify_schema_for_llm (JDict [(''anyOf'', JNull)]) = Inl TypeError \<and>
   node_at nested_number_doc [Key ''examples'', Idx 0, Idx 0] =
     Some (JDict [(''pattern'', JInt 5)]) \<and>
   py_len (JInt 5) = None \<and>
   simplify_schema_for_llm nested_number_doc = Inr nested_number_doc \<and>
   node_at sliced_mapping_doc [Key ''items''] = Some (JDict [(''pattern'', JInt 5)]) \<and>
   simplify_schema_for_llm sliced_mapping_doc = Inl SliceError"
  by (simp add: nested_number_doc_def sliced_mapping_doc_def pattern_rule_def anyOf_rule_def)

end
